theory Spec2Isabelle
  imports Complex_Main "HOL-Library.Log_Nat"
begin

section \<open>JavaScript numbers\<close>

text \<open>
  Every number of the program is an IEEE 754 binary64 value. A finite binary64 value is a
  rational, so numbers are modelled as \<^typ>\<open>rat\<close> and every arithmetic operation rounds
  its exact result to the nearest binary64 value, ties to even (\<open>fl\<close>). Subnormal values
  are covered (the exponent is held at \<open>-1022\<close>); infinities and NaN are not: no quantity
  of the game comes near \<open>2 ^ 1024\<close>, and the only division by a variable, by
  \<open>initialAlienCount\<close>, is made when the alien group is not empty.
\<close>

definition flog2 :: "rat \<Rightarrow> int" where
  "flog2 q = (if 1 \<le> \<bar>q\<bar> then bitlen \<lfloor>\<bar>q\<bar>\<rfloor> - 1 else - bitlen (\<lceil>1 / \<bar>q\<bar>\<rceil> - 1))"

definition round_half_even :: "rat \<Rightarrow> int" where
  "round_half_even r =
     (let f = \<lfloor>r\<rfloor>; d = r - of_int f
      in if d < 1 / 2 then f else if 1 / 2 < d then f + 1 else if even f then f else f + 1)"

definition ulp :: "rat \<Rightarrow> rat" where
  "ulp q = 2 powi (max (flog2 q) (- 1022) - 52)"

definition fl :: "rat \<Rightarrow> rat" where
  "fl q = (if q = 0 then 0 else of_int (round_half_even (q / ulp q)) * ulp q)"

definition jadd :: "rat \<Rightarrow> rat \<Rightarrow> rat" where
  "jadd a b = fl (a + b)"

definition jsub :: "rat \<Rightarrow> rat \<Rightarrow> rat" where
  "jsub a b = fl (a - b)"

definition jmul :: "rat \<Rightarrow> rat \<Rightarrow> rat" where
  "jmul a b = fl (a * b)"

definition jdiv :: "rat \<Rightarrow> rat \<Rightarrow> rat" where
  "jdiv a b = fl (a / b)"

section \<open>Constants, keys and game states\<close>

definition WIDTH :: rat where
  "WIDTH = 800"

definition HEIGHT :: rat where
  "HEIGHT = 600"

definition SHOOT_DELAY :: rat where
  "SHOOT_DELAY = 500"

datatype key = ArrowLeft | ArrowRight | Space | Enter | Escape | KeyR | KeyQ | KeyI

datatype gameState = MENU | INSTRUCTIONS | PLAYING | LEVEL_COMPLETE | GAME_OVER | VICTORY

section \<open>Sprites\<close>

text \<open>
  \<open>Sprite\<close> and its four subclasses are one record with a class tag. The image of a
  sprite is only drawn, never read by the simulation, and every call of \<open>setRect\<close> in
  the program passes an explicit width and height, so \<open>setRect\<close> always takes its
  first branch or its second, which assign the same box.
\<close>

record rect =
  x :: rat
  y :: rat
  width :: rat
  height :: rat

datatype kind = Player | Bullet | Alien | EnemyBullet

record sprite =
  rect :: rect
  isAlive :: bool
  kind :: kind
  speed :: rat
  image_index :: nat
  last_animation_time :: rat

datatype posType = midbottom | midtop | topleft

definition Sprite :: "kind \<Rightarrow> sprite" where
  "Sprite k = \<lparr>rect = \<lparr>x = 0, y = 0, width = 0, height = 0\<rparr>, isAlive = True, kind = k,
               speed = 0, image_index = 0, last_animation_time = 0\<rparr>"

definition setRect :: "posType \<Rightarrow> rat \<Rightarrow> rat \<Rightarrow> rat \<Rightarrow> rat \<Rightarrow> sprite \<Rightarrow> sprite" where
  "setRect pt px py w h s =
     (let r = (rect s)\<lparr>width := w, height := h\<rparr>
      in s\<lparr>rect :=
           (case pt of
              midbottom \<Rightarrow> r\<lparr>x := jsub px (jdiv w 2), y := jsub py h\<rparr>
            | midtop \<Rightarrow> r\<lparr>x := jsub px (jdiv w 2), y := py\<rparr>
            | topleft \<Rightarrow> r\<lparr>x := px, y := py\<rparr>)\<rparr>)"

definition kill :: "sprite \<Rightarrow> sprite" where
  "kill s = s\<lparr>isAlive := False\<rparr>"

definition new_Player :: sprite where
  "new_Player = (setRect midbottom (jdiv WIDTH 2) (jsub HEIGHT 10) 50 60 (Sprite Player))\<lparr>speed := 3\<rparr>"

definition new_Bullet :: "rat \<Rightarrow> rat \<Rightarrow> sprite" where
  "new_Bullet px py = (setRect midbottom px py 5 15 (Sprite Bullet))\<lparr>speed := 7\<rparr>"

definition new_Alien :: "rat \<Rightarrow> rat \<Rightarrow> rat \<Rightarrow> sprite" where
  "new_Alien px py now =
     (setRect topleft px py 30 20 (Sprite Alien))\<lparr>image_index := 0, last_animation_time := now\<rparr>"

definition new_EnemyBullet :: "rat \<Rightarrow> rat \<Rightarrow> sprite" where
  "new_EnemyBullet px py = (setRect midtop px py 5 15 (Sprite EnemyBullet))\<lparr>speed := 3\<rparr>"

text \<open>\<open>Player.update\<close>: the two tests are made one after the other, the second on the
  position the first may have changed.\<close>

definition Player_update :: "(key \<Rightarrow> bool) \<Rightarrow> sprite \<Rightarrow> sprite" where
  "Player_update keys s =
     (let s1 = (if keys ArrowLeft \<and> 0 < x (rect s)
                then s\<lparr>rect := (rect s)\<lparr>x := jsub (x (rect s)) (speed s)\<rparr>\<rparr> else s)
      in if keys ArrowRight \<and> jadd (x (rect s1)) (width (rect s1)) < WIDTH
         then s1\<lparr>rect := (rect s1)\<lparr>x := jadd (x (rect s1)) (speed s1)\<rparr>\<rparr> else s1)"

definition Bullet_update :: "sprite \<Rightarrow> sprite" where
  "Bullet_update s =
     (let s1 = s\<lparr>rect := (rect s)\<lparr>y := jsub (y (rect s)) (speed s)\<rparr>\<rparr>
      in if jadd (y (rect s1)) (height (rect s1)) < 0 then kill s1 else s1)"

definition EnemyBullet_update :: "sprite \<Rightarrow> sprite" where
  "EnemyBullet_update s =
     (let s1 = s\<lparr>rect := (rect s)\<lparr>y := jadd (y (rect s)) (speed s)\<rparr>\<rparr>
      in if HEIGHT < y (rect s1) then kill s1 else s1)"

text \<open>\<open>Alien.update\<close>; \<open>now\<close> is the value of \<open>performance.now()\<close>, and the two
  animation frames make \<open>images.length = 2\<close>.\<close>

definition Alien_update :: "bool \<Rightarrow> rat \<Rightarrow> rat \<Rightarrow> sprite \<Rightarrow> sprite" where
  "Alien_update moving_right speed_multiplier now s =
     (let s1 = (if moving_right
                then s\<lparr>rect := (rect s)\<lparr>x := jadd (x (rect s)) (jmul (1 / 2) speed_multiplier)\<rparr>\<rparr>
                else s\<lparr>rect := (rect s)\<lparr>x := jsub (x (rect s)) (jmul (1 / 2) speed_multiplier)\<rparr>\<rparr>)
      in if 500 \<le> jsub now (last_animation_time s1)
         then s1\<lparr>image_index := (image_index s1 + 1) mod 2, last_animation_time := now\<rparr>
         else s1)"

section \<open>Sprite groups over a store of sprites\<close>

text \<open>
  Sprites are objects: a group holds references, and \<open>kill\<close> or \<open>update\<close> changes the
  object every holder sees. The store maps an address to the sprite object there and a
  group is the list of the addresses in its \<open>sprites\<close> array.
\<close>

type_synonym addr = nat

type_synonym store = "addr \<Rightarrow> sprite"

definition checkCollision :: "rect \<Rightarrow> rect \<Rightarrow> bool" where
  "checkCollision rect1 rect2 \<longleftrightarrow>
     x rect1 < jadd (x rect2) (width rect2) \<and>
     jadd (x rect1) (width rect1) > x rect2 \<and>
     y rect1 < jadd (y rect2) (height rect2) \<and>
     jadd (y rect1) (height rect1) > y rect2"

text \<open>
  \<open>SpriteGroup.update\<close>: the callback of \<open>filter\<close> runs on the elements in order; a
  sprite alive when visited is updated and kept, whatever its update did to it. The
  update method is the one of the class of the group's members (each group of the program
  holds sprites of one class), with the arguments of the call already applied.
\<close>

fun SpriteGroup_update :: "(sprite \<Rightarrow> sprite) \<Rightarrow> store \<Rightarrow> addr list \<Rightarrow> store \<times> addr list" where
  "SpriteGroup_update f h [] = (h, [])"
| "SpriteGroup_update f h (a # as) =
     (if isAlive (h a)
      then (let (h', kept) = SpriteGroup_update f (h(a := f (h a))) as in (h', a # kept))
      else SpriteGroup_update f h as)"

text \<open>The \<open>Map\<close> of \<open>groupCollide\<close>, keyed by sprite identity, in insertion order.\<close>

type_synonym collisions = "(addr \<times> addr list) list"

definition collisions_push :: "addr \<Rightarrow> addr \<Rightarrow> collisions \<Rightarrow> collisions" where
  "collisions_push s1 s2 c =
     (let c1 = (if map_of c s1 = None then c @ [(s1, [])] else c)
      in map (\<lambda>(k, v). if k = s1 then (k, v @ [s2]) else (k, v)) c1)"

definition collide_pair :: "bool \<Rightarrow> bool \<Rightarrow> store \<times> collisions \<Rightarrow> addr \<times> addr \<Rightarrow> store \<times> collisions" where
  "collide_pair dokill1 dokill2 st p =
     (let h = fst st; c = snd st; s1 = fst p; s2 = snd p
      in if isAlive (h s1) \<and> isAlive (h s2) \<and> checkCollision (rect (h s1)) (rect (h s2))
         then (let h1 = (if dokill1 then h(s1 := kill (h s1)) else h);
                   h2 = (if dokill2 then h1(s2 := kill (h1 s2)) else h1)
               in (h2, collisions_push s1 s2 c))
         else st)"

definition groupCollide :: "store \<Rightarrow> addr list \<Rightarrow> addr list \<Rightarrow> bool \<Rightarrow> bool \<Rightarrow> store \<times> collisions" where
  "groupCollide h group1 group2 dokill1 dokill2 =
     foldl (\<lambda>st s1. foldl (\<lambda>st' s2. collide_pair dokill1 dokill2 st' (s1, s2)) st group2)
       (h, []) group1"

definition spriteCollide_visit :: "addr \<Rightarrow> bool \<Rightarrow> store \<times> addr list \<Rightarrow> addr \<Rightarrow> store \<times> addr list" where
  "spriteCollide_visit sp dokill st s =
     (let h = fst st
      in if isAlive (h s) \<and> checkCollision (rect (h sp)) (rect (h s))
         then ((if dokill then h(s := kill (h s)) else h), snd st @ [s])
         else st)"

definition spriteCollide :: "store \<Rightarrow> addr \<Rightarrow> addr list \<Rightarrow> bool \<Rightarrow> store \<times> addr list" where
  "spriteCollide h sp grp dokill =
     (if \<not> isAlive (h sp) then (h, [])
      else foldl (spriteCollide_visit sp dokill) (h, []) grp)"

section \<open>The game\<close>

text \<open>
  The module-level variables of the program, with the store of sprite objects.
  \<open>alienShootInterval\<close> is the period of the interval timer registered under
  \<open>alienShootIntervalId\<close>, \<open>None\<close> when no such timer is running. \<open>currentLevel\<close>
  and the alien counts are integers well inside the exact range of binary64.
\<close>

record game =
  heap :: store
  nextAddr :: addr
  gameState :: gameState
  currentLevel :: int
  playerGroup :: "addr list"
  bulletGroup :: "addr list"
  enemyBulletGroup :: "addr list"
  alienGroup :: "addr list"
  initialAlienCount :: nat
  alienShootInterval :: "int option"
  movingRight :: bool
  lastShotTime :: rat
  pressedKeys :: "key \<Rightarrow> bool"

definition initial_game :: game where
  "initial_game =
     \<lparr>heap = (\<lambda>a. Sprite Player), nextAddr = 0, gameState = MENU, currentLevel = 1,
      playerGroup = [], bulletGroup = [], enemyBulletGroup = [], alienGroup = [],
      initialAlienCount = 0, alienShootInterval = None, movingRight = True,
      lastShotTime = 200, pressedKeys = (\<lambda>k. False)\<rparr>"

text \<open>\<open>new\<close>: the object is stored at the next free address.\<close>

definition alloc :: "sprite \<Rightarrow> game \<Rightarrow> addr \<times> game" where
  "alloc s g = (nextAddr g, g\<lparr>heap := (heap g)(nextAddr g := s), nextAddr := Suc (nextAddr g)\<rparr>)"

definition add_alien :: "nat \<Rightarrow> nat \<Rightarrow> rat \<Rightarrow> game \<Rightarrow> game" where
  "add_alien row col now g =
     (let (a, g1) = alloc (new_Alien (jadd (jmul (of_nat col) 60) 50)
                                     (jadd (jmul (of_nat row) 50) 30) now) g
      in g1\<lparr>alienGroup := alienGroup g1 @ [a]\<rparr>)"

text \<open>The two nested \<open>for\<close> loops that fill the alien group, row by row.\<close>

definition populateAliens :: "rat \<Rightarrow> nat list \<Rightarrow> nat list \<Rightarrow> game \<Rightarrow> game" where
  "populateAliens now rws cls g =
     foldl (\<lambda>ga row. foldl (\<lambda>gb col. add_alien row col now gb) ga cls) g rws"

text \<open>\<open>startGameLoop\<close>; \<open>now\<close> is the reading of \<open>performance.now()\<close>.\<close>

definition startGameLoop :: "rat \<Rightarrow> game \<Rightarrow> game" where
  "startGameLoop now g =
     (let (p, g1) = alloc new_Player g;
          g2 = g1\<lparr>playerGroup := [p], bulletGroup := [], enemyBulletGroup := [], alienGroup := []\<rparr>;
          rows = 3 + (currentLevel g2 - 1);
          cols = 10;
          g3 = populateAliens now [0..<nat rows] [0..<cols] g2
      in g3\<lparr>initialAlienCount := length (alienGroup g3),
            alienShootInterval := Some (max (600 - (currentLevel g3 - 1) * 100) 300),
            movingRight := True,
            lastShotTime := now\<rparr>)"

text \<open>The callback of the enemy-fire timer; \<open>i\<close> is the index
  \<open>Math.floor(Math.random() * alienGroup.length)\<close>, which is below the length.\<close>

definition alienShoot :: "nat \<Rightarrow> game \<Rightarrow> game" where
  "alienShoot i g =
     (if 0 < length (alienGroup g) \<and> i < length (alienGroup g)
      then (let shooter = heap g (alienGroup g ! i);
                (b, g1) = alloc (new_EnemyBullet
                                  (jadd (x (rect shooter)) (jdiv (width (rect shooter)) 2))
                                  (jadd (y (rect shooter)) (height (rect shooter)))) g
            in g1\<lparr>enemyBulletGroup := enemyBulletGroup g1 @ [b]\<rparr>)
      else g)"

subsection \<open>The PLAYING state\<close>

text \<open>\<open>updatePlaying\<close> is cut into its consecutive blocks: the player's shot
  (\<open>playing_shoot\<close>), the restart and quit keys, the update passes of the player and of
  both bullet groups (\<open>updateGroups\<close>), the movement of the formation
  (\<open>moveFormation\<close>), the collisions of the player's bullets with the aliens
  (\<open>bulletsHitAliens\<close>), and the checks that end the level (\<open>playing_outcome\<close>). One
  reading of the clock, \<open>now\<close>, serves the whole frame.\<close>

definition playing_shoot :: "rat \<Rightarrow> game \<Rightarrow> game" where
  "playing_shoot now g =
     (if pressedKeys g Space \<and> SHOOT_DELAY < jsub now (lastShotTime g)
      then (case playerGroup g of
              [] \<Rightarrow> g
            | p # _ \<Rightarrow>
                (let ps = heap g p;
                     (b, g1) = alloc (new_Bullet (jadd (x (rect ps)) (jdiv (width (rect ps)) 2))
                                                 (y (rect ps))) g
                 in g1\<lparr>bulletGroup := bulletGroup g1 @ [b], lastShotTime := now\<rparr>))
      else g)"

fun edgeReached :: "bool \<Rightarrow> store \<Rightarrow> addr list \<Rightarrow> bool" where
  "edgeReached mr h [] = False"
| "edgeReached mr h (a # as) =
     (if mr \<and> WIDTH \<le> jadd (x (rect (h a))) (width (rect (h a))) then True
      else if \<not> mr \<and> x (rect (h a)) \<le> 0 then True
      else edgeReached mr h as)"

definition descend :: "rat \<Rightarrow> store \<Rightarrow> addr list \<Rightarrow> store" where
  "descend d h grp =
     foldl (\<lambda>h' a. h'(a := (h' a)\<lparr>rect := (rect (h' a))\<lparr>y := jadd (y (rect (h' a))) d\<rparr>\<rparr>)) h grp"

definition speedMultiplier :: "nat \<Rightarrow> nat \<Rightarrow> rat" where
  "speedMultiplier initial current =
     (if 0 < current
      then jadd 1 (jdiv (jsub (of_nat initial) (of_nat current)) (of_nat initial))
      else 1)"

definition updateGroups :: "game \<Rightarrow> game" where
  "updateGroups g =
     (let (h1, pg) = SpriteGroup_update (Player_update (pressedKeys g)) (heap g) (playerGroup g);
          (h2, bg) = SpriteGroup_update Bullet_update h1 (bulletGroup g);
          (h3, eg) = SpriteGroup_update EnemyBullet_update h2 (enemyBulletGroup g)
      in g\<lparr>heap := h3, playerGroup := pg, bulletGroup := bg, enemyBulletGroup := eg\<rparr>)"

definition moveFormation :: "rat \<Rightarrow> game \<Rightarrow> game" where
  "moveFormation now g =
     (let changeDirection = edgeReached (movingRight g) (heap g) (alienGroup g);
          g1 = (if changeDirection
                then g\<lparr>movingRight := \<not> movingRight g,
                       heap := descend (of_int (10 + currentLevel g * 5)) (heap g) (alienGroup g)\<rparr>
                else g);
          m = speedMultiplier (initialAlienCount g1) (length (alienGroup g1));
          (h, ag) = SpriteGroup_update (Alien_update (movingRight g1) m now) (heap g1) (alienGroup g1)
      in g1\<lparr>heap := h, alienGroup := ag\<rparr>)"

definition bulletsHitAliens :: "game \<Rightarrow> game" where
  "bulletsHitAliens g =
     g\<lparr>heap := fst (groupCollide (heap g) (bulletGroup g) (alienGroup g) True True)\<rparr>"

definition playing_advance :: "rat \<Rightarrow> game \<Rightarrow> game" where
  "playing_advance now g = bulletsHitAliens (moveFormation now (updateGroups g))"

text \<open>\<open>playerGroup.sprite && spriteCollide(...).length > 0\<close>: without a player the
  collision is not computed.\<close>

definition playerHit :: "game \<Rightarrow> addr list \<Rightarrow> bool \<Rightarrow> store \<times> bool" where
  "playerHit g grp dokill =
     (case playerGroup g of
        [] \<Rightarrow> (heap g, False)
      | p # _ \<Rightarrow> (let (h, collided) = spriteCollide (heap g) p grp dokill
                  in (h, 0 < length collided)))"

definition playing_outcome :: "game \<Rightarrow> game" where
  "playing_outcome g =
     (let r1 = playerHit g (enemyBulletGroup g) True;
          g1 = g\<lparr>heap := fst r1\<rparr>
      in if snd r1 then g1\<lparr>alienShootInterval := None, gameState := GAME_OVER\<rparr>
         else (let r2 = playerHit g1 (alienGroup g1) False;
                   g2 = g1\<lparr>heap := fst r2\<rparr>
               in if snd r2 then g2\<lparr>alienShootInterval := None, gameState := GAME_OVER\<rparr>
                  else if length (alienGroup g2) = 0
                  then g2\<lparr>alienShootInterval := None, gameState := LEVEL_COMPLETE\<rparr>
                  else g2))"

text \<open>On the quit key \<open>cancelAnimationFrame\<close> is given the request that is being served,
  and \<open>gameLoop\<close> asks for the next frame once the update has returned: only the timer
  stops.\<close>

definition updatePlaying :: "rat \<Rightarrow> game \<Rightarrow> game" where
  "updatePlaying now g =
     (let g1 = playing_shoot now g
      in if pressedKeys g1 KeyR
         then g1\<lparr>pressedKeys := (pressedKeys g1)(KeyR := False), currentLevel := 1,
                 gameState := MENU, alienShootInterval := None\<rparr>
         else if pressedKeys g1 KeyQ
         then g1\<lparr>alienShootInterval := None\<rparr>
         else playing_outcome (playing_advance now g1))"

subsection \<open>The other states and the frame loop\<close>

definition updateMenu :: "rat \<Rightarrow> game \<Rightarrow> game" where
  "updateMenu now g =
     (let g1 = (if pressedKeys g Enter
                then startGameLoop now
                       (g\<lparr>pressedKeys := (pressedKeys g)(Enter := False), gameState := PLAYING\<rparr>)
                else g)
      in if pressedKeys g1 KeyI
         then g1\<lparr>pressedKeys := (pressedKeys g1)(KeyI := False), gameState := INSTRUCTIONS\<rparr>
         else g1)"

definition updateInstructions :: "game \<Rightarrow> game" where
  "updateInstructions g =
     (if pressedKeys g Enter \<or> pressedKeys g Escape
      then g\<lparr>pressedKeys := (pressedKeys g)(Enter := False, Escape := False), gameState := MENU\<rparr>
      else g)"

definition updateLevelComplete :: "rat \<Rightarrow> game \<Rightarrow> game" where
  "updateLevelComplete now g =
     (if pressedKeys g Enter \<or> pressedKeys g Escape
      then (let g1 = g\<lparr>pressedKeys := (pressedKeys g)(Enter := False, Escape := False),
                       currentLevel := currentLevel g + 1\<rparr>
            in if 3 < currentLevel g1 then g1\<lparr>gameState := VICTORY\<rparr>
               else startGameLoop now (g1\<lparr>gameState := PLAYING\<rparr>))
      else g)"

definition updateVictory :: "game \<Rightarrow> game" where
  "updateVictory g =
     (if pressedKeys g KeyR
      then g\<lparr>pressedKeys := (pressedKeys g)(KeyR := False), currentLevel := 1, gameState := MENU\<rparr>
      else if pressedKeys g KeyQ then g\<lparr>alienShootInterval := None\<rparr>
      else g)"

definition updateGameOver :: "game \<Rightarrow> game" where
  "updateGameOver g =
     (if pressedKeys g KeyR
      then g\<lparr>pressedKeys := (pressedKeys g)(KeyR := False), currentLevel := 1, gameState := MENU\<rparr>
      else if pressedKeys g KeyQ then g\<lparr>alienShootInterval := None\<rparr>
      else g)"

definition gameLoop :: "rat \<Rightarrow> game \<Rightarrow> game" where
  "gameLoop now g =
     (case gameState g of
        MENU \<Rightarrow> updateMenu now g
      | INSTRUCTIONS \<Rightarrow> updateInstructions g
      | PLAYING \<Rightarrow> updatePlaying now g
      | LEVEL_COMPLETE \<Rightarrow> updateLevelComplete now g
      | GAME_OVER \<Rightarrow> updateGameOver g
      | VICTORY \<Rightarrow> updateVictory g)"

text \<open>Everything that runs after start-up is one of four callbacks: a key goes down or
  up, a frame is served, the enemy-fire timer fires (only while it is registered).\<close>

datatype event = KeyDown key | KeyUp key | Frame rat | AlienShootTimer nat

fun dispatch :: "game \<Rightarrow> event \<Rightarrow> game" where
  "dispatch g (KeyDown k) = g\<lparr>pressedKeys := (pressedKeys g)(k := True)\<rparr>"
| "dispatch g (KeyUp k) = g\<lparr>pressedKeys := (pressedKeys g)(k := False)\<rparr>"
| "dispatch g (Frame now) = gameLoop now g"
| "dispatch g (AlienShootTimer i) = (if alienShootInterval g = None then g else alienShoot i g)"

definition run :: "game \<Rightarrow> event list \<Rightarrow> game" where
  "run g es = foldl dispatch g es"

text \<open>The positions a player object can take: it is built by \<open>new Player()\<close> and only
  \<open>Player.update\<close> moves it.\<close>

inductive reachable_player :: "sprite \<Rightarrow> bool" where
  created: "reachable_player new_Player"
| updated: "reachable_player p \<Longrightarrow> reachable_player (Player_update keys p)"

section \<open>Observing a collision pass\<close>

text \<open>\<open>groupCollide\<close> visits the pairs of \<open>List.product group1 group2\<close> in order;
  \<open>collide_upto\<close> is the store and the map after the first \<open>n\<close> visits. A store
  differs from another by kills only when each object is as before or killed.\<close>

definition collide_upto ::
    "bool \<Rightarrow> bool \<Rightarrow> store \<Rightarrow> addr list \<Rightarrow> addr list \<Rightarrow> nat \<Rightarrow> store \<times> collisions" where
  "collide_upto dokill1 dokill2 h group1 group2 n =
     foldl (collide_pair dokill1 dokill2) (h, []) (take n (List.product group1 group2))"

definition kills_only :: "store \<Rightarrow> store \<Rightarrow> bool" where
  "kills_only h h' \<longleftrightarrow> (\<forall>a. h' a = h a \<or> h' a = kill (h a))"

text \<open>A store keeps the dead of another when no object dead in the first is alive in
  the second.\<close>

definition dead_kept :: "store \<Rightarrow> store \<Rightarrow> bool" where
  "dead_kept h h' \<longleftrightarrow> (\<forall>a. \<not> isAlive (h a) \<longrightarrow> \<not> isAlive (h' a))"

text \<open>Once dead, dead for good: between two states of the game no object that exists
  in the first and is dead there is alive in the second.\<close>

definition stays_dead :: "game \<Rightarrow> game \<Rightarrow> bool" where
  "stays_dead g g' \<longleftrightarrow>
     nextAddr g \<le> nextAddr g' \<and>
     (\<forall>a<nextAddr g. \<not> isAlive (heap g a) \<longrightarrow> \<not> isAlive (heap g' a))"

text \<open>Every sprite is put into one group, once, when it is built: the four arrays share
  no object, hold none twice, and hold only objects that exist.\<close>

definition wf_session :: "game \<Rightarrow> bool" where
  "wf_session g \<longleftrightarrow>
     distinct (playerGroup g @ bulletGroup g @ enemyBulletGroup g @ alienGroup g) \<and>
     (\<forall>a\<in>set (playerGroup g @ bulletGroup g @ enemyBulletGroup g @ alienGroup g).
        a < nextAddr g)"

section \<open>Sample stores and sessions\<close>

text \<open>A player's bullet whose box is about to leave the screen at the top: it is built
  at \<open>y = -10\<close> and one update moves it to \<open>y = -17\<close>, with lower edge \<open>-2\<close>.\<close>

definition leaving_bullet :: store where
  "leaving_bullet = (\<lambda>a. new_Bullet 100 5)"

text \<open>Two bullets of the player over the same alien.\<close>

definition double_hit :: store where
  "double_hit = (\<lambda>a. if a = 2 then new_Alien 100 30 0 else new_Bullet 115 50)"

text \<open>A level-1 session in play: the player where it is built, an enemy bullet that
  its next move brings onto the player, and one alien; and the same session after the
  player's bullet has killed that alien.\<close>

definition sample_store :: store where
  "sample_store =
     (\<lambda>a. if a = 0 then new_Player else if a = 1 then new_EnemyBullet 400 540
          else new_Alien 50 30 0)"

definition sample_session :: game where
  "sample_session =
     \<lparr>heap = sample_store, nextAddr = 3, gameState = PLAYING, currentLevel = 1,
      playerGroup = [0], bulletGroup = [], enemyBulletGroup = [1], alienGroup = [2],
      initialAlienCount = 30, alienShootInterval = Some 600, movingRight = True,
      lastShotTime = 0, pressedKeys = (\<lambda>k. False)\<rparr>"

definition last_alien_shot :: game where
  "last_alien_shot = sample_session\<lparr>heap := sample_store(2 := kill (sample_store 2))\<rparr>"

text \<open>A session whose only alien has its right edge at 820, moving rightward.\<close>

definition edge_session :: game where
  "edge_session =
     \<lparr>heap = (\<lambda>a. if a = 0 then new_Player else new_Alien 790 30 0), nextAddr = 2,
      gameState = PLAYING, currentLevel = 1,
      playerGroup = [0], bulletGroup = [], enemyBulletGroup = [], alienGroup = [1],
      initialAlienCount = 30, alienShootInterval = Some 600, movingRight = True,
      lastShotTime = 0, pressedKeys = (\<lambda>k. False)\<rparr>"

text \<open>The same session in a frame where the restart key is held.\<close>

definition edge_session_restart :: game where
  "edge_session_restart = edge_session\<lparr>pressedKeys := (pressedKeys edge_session)(KeyR := True)\<rparr>"

text \<open>Level 1 has just been cleared and the confirm key is held; and the same after
  level 3.\<close>

definition level_cleared :: game where
  "level_cleared =
     initial_game\<lparr>gameState := LEVEL_COMPLETE,
                  pressedKeys := (pressedKeys initial_game)(Enter := True)\<rparr>"

definition last_level_cleared :: game where
  "last_level_cleared = level_cleared\<lparr>currentLevel := 3\<rparr>"

section \<open>Rounding: what is exact\<close>

lemma flog2_bounds:
  assumes "q \<noteq> 0"
  shows "2 powi (flog2 q) \<le> \<bar>q\<bar>" and "\<bar>q\<bar> < 2 powi (flog2 q + 1)"
proof -
  have both: "2 powi (flog2 q) \<le> \<bar>q\<bar> \<and> \<bar>q\<bar> < 2 powi (flog2 q + 1)"
  proof (cases "1 \<le> \<bar>q\<bar>")
    case True
    define n where "n = \<lfloor>\<bar>q\<bar>\<rfloor>"
    have n1: "1 \<le> n" using True by (simp add: n_def le_floor_iff)
    then have npos: "0 < n" by simp
    have bl: "1 \<le> bitlen n" using npos bitlen_eq_zero_iff [of n] bitlen_nonneg [of n] by linarith
    have e: "flog2 q = bitlen n - 1" using True by (simp add: flog2_def n_def)
    have lo: "(2::int) ^ nat (bitlen n - 1) \<le> n" and hi: "n < 2 ^ nat (bitlen n)"
      using bitlen_bounds [OF npos] by simp_all
    have "(2::rat) powi (bitlen n - 1) = of_int (2 ^ nat (bitlen n - 1))"
      using bl by (simp add: power_int_def)
    also have "\<dots> \<le> of_int n" using lo by (simp only: of_int_le_iff)
    also have "\<dots> \<le> \<bar>q\<bar>" by (simp add: n_def)
    finally have A: "2 powi (flog2 q) \<le> \<bar>q\<bar>" by (simp add: e)
    have "n + 1 \<le> 2 ^ nat (bitlen n)" using hi by simp
    then have "(of_int (n + 1) :: rat) \<le> of_int (2 ^ nat (bitlen n))" by (simp only: of_int_le_iff)
    moreover have "\<bar>q\<bar> < of_int (n + 1)" unfolding n_def by linarith
    moreover have "(2::rat) powi (bitlen n) = of_int (2 ^ nat (bitlen n))"
      using bl by (simp add: power_int_def)
    ultimately have "\<bar>q\<bar> < 2 powi (flog2 q + 1)" by (simp add: e)
    with A show ?thesis by simp
  next
    case False
    define r where "r = 1 / \<bar>q\<bar>"
    define m where "m = \<lceil>r\<rceil> - 1"
    have qpos: "0 < \<bar>q\<bar>" using assms by simp
    have r1: "1 < r" using False qpos by (simp add: r_def)
    have m1: "1 \<le> m" using r1 unfolding m_def by linarith
    then have mpos: "0 < m" by simp
    have bl: "1 \<le> bitlen m" using mpos bitlen_eq_zero_iff [of m] bitlen_nonneg [of m] by linarith
    have e: "flog2 q = - bitlen m" using False by (simp add: flog2_def m_def r_def)
    have lo: "(2::int) ^ nat (bitlen m - 1) \<le> m" and hi: "m < 2 ^ nat (bitlen m)"
      using bitlen_bounds [OF mpos] by simp_all
    have mr: "of_int m < r" and rm: "r \<le> of_int (m + 1)" unfolding m_def by linarith+
    have "(of_int (2 ^ nat (bitlen m - 1)) :: rat) \<le> of_int m" using lo by (simp only: of_int_le_iff)
    moreover have "(of_int (2 ^ nat (bitlen m - 1)) :: rat) = 2 ^ nat (bitlen m - 1)" by simp
    ultimately have p1: "(2::rat) ^ nat (bitlen m - 1) < r" using mr by linarith
    have "m + 1 \<le> 2 ^ nat (bitlen m)" using hi by simp
    then have "(of_int (m + 1) :: rat) \<le> of_int (2 ^ nat (bitlen m))" by (simp only: of_int_le_iff)
    moreover have "(of_int (2 ^ nat (bitlen m)) :: rat) = 2 ^ nat (bitlen m)" by simp
    ultimately have p2: "r \<le> (2::rat) ^ nat (bitlen m)" using rm by linarith
    have q_r: "\<bar>q\<bar> = 1 / r" by (simp add: r_def)
    have rpos: "0 < r" using r1 by simp
    have "1 / (2::rat) ^ nat (bitlen m) \<le> 1 / r"
      using p2 rpos by (simp add: frac_le)
    moreover have "(2::rat) powi (- bitlen m) = 1 / 2 ^ nat (bitlen m)"
      using bl by (simp add: power_int_def field_simps)
    ultimately have A: "2 powi (flog2 q) \<le> \<bar>q\<bar>" by (simp add: e q_r)
    have "1 / r < 1 / (2::rat) ^ nat (bitlen m - 1)"
      using p1 by (simp add: frac_less2)
    moreover have "(2::rat) powi (- bitlen m + 1) = 1 / 2 ^ nat (bitlen m - 1)"
    proof -
      have "(2::rat) powi (- (bitlen m - 1)) = inverse (2 powi (bitlen m - 1))"
        by (rule power_int_minus)
      moreover have "(2::rat) powi (bitlen m - 1) = 2 ^ nat (bitlen m - 1)"
        using bl by (simp add: power_int_def)
      moreover have "- bitlen m + 1 = - (bitlen m - 1)" by simp
      ultimately show ?thesis by (simp add: field_simps)
    qed
    ultimately have "\<bar>q\<bar> < 2 powi (flog2 q + 1)" by (simp add: e q_r)
    with A show ?thesis by simp
  qed
  from both show "2 powi (flog2 q) \<le> \<bar>q\<bar>" and "\<bar>q\<bar> < 2 powi (flog2 q + 1)" by simp_all
qed

lemma powi2_less_imp: "(2::rat) powi a < 2 powi b \<Longrightarrow> a < b"
  using power_int_increasing [of b a "2::rat"] by (cases "a < b") auto

lemma round_half_even_of_int: "round_half_even (of_int k) = k"
  by (simp add: round_half_even_def)

lemma round_half_even_err: "\<bar>of_int (round_half_even r) - r\<bar> \<le> 1 / 2"
  unfolding round_half_even_def Let_def
  by (auto simp: abs_if) linarith+

lemma ulp_pos: "0 < ulp q"
  by (simp add: ulp_def)

lemma fl_err: "\<bar>fl q - q\<bar> \<le> ulp q / 2"
proof (cases "q = 0")
  case True
  then show ?thesis using ulp_pos [of 0] by (simp add: fl_def)
next
  case False
  have "fl q - q = (of_int (round_half_even (q / ulp q)) - q / ulp q) * ulp q"
    using ulp_pos [of q] False by (simp add: fl_def field_simps)
  then have "\<bar>fl q - q\<bar> = \<bar>of_int (round_half_even (q / ulp q)) - q / ulp q\<bar> * ulp q"
    using ulp_pos [of q] by (simp add: abs_mult)
  also have "\<dots> \<le> (1 / 2) * ulp q"
    using round_half_even_err [of "q / ulp q"] ulp_pos [of q]
    by (intro mult_right_mono) simp_all
  finally show ?thesis by simp
qed

lemma fl_of_int:
  assumes "\<bar>n\<bar> < 2 ^ 53"
  shows "fl (of_int n) = of_int n"
proof (cases "n = 0")
  case True
  then show ?thesis by (simp add: fl_def)
next
  case False
  define q :: rat where "q = of_int n"
  have q0: "q \<noteq> 0" using False by (simp add: q_def)
  have "1 \<le> \<bar>n\<bar>" using False by simp
  then have "(of_int 1 :: rat) \<le> of_int \<bar>n\<bar>" by (simp only: of_int_le_iff)
  then have q1: "1 \<le> \<bar>q\<bar>" by (simp add: q_def)
  have "2 powi (flog2 q) \<le> \<bar>q\<bar>" by (rule flog2_bounds [OF q0])
  also have "\<bar>q\<bar> < 2 ^ 53"
  proof -
    have "(of_int \<bar>n\<bar> :: rat) < of_int (2 ^ 53)" using assms by (simp only: of_int_less_iff)
    then show ?thesis by (simp add: q_def)
  qed
  finally have "(2::rat) powi (flog2 q) < 2 powi 53" by simp
  then have e_hi: "flog2 q < 53" by (rule powi2_less_imp)
  have "(2::rat) powi 0 \<le> \<bar>q\<bar>" using q1 by simp
  also have "\<bar>q\<bar> < 2 powi (flog2 q + 1)" by (rule flog2_bounds [OF q0])
  finally have "0 < flog2 q + 1" by (rule powi2_less_imp)
  then have e_lo: "0 \<le> flog2 q" by simp
  define j where "j = nat (52 - flog2 q)"
  have u: "ulp q = 1 / 2 ^ j"
  proof -
    have "max (flog2 q) (- 1022) - 52 = - int j" using e_lo e_hi by (simp add: j_def)
    then have "ulp q = 2 powi (- int j)" by (simp only: ulp_def)
    also have "\<dots> = inverse (2 powi (int j))" by (rule power_int_minus)
    finally show ?thesis by (simp add: field_simps)
  qed
  have d: "q / ulp q = of_int (n * 2 ^ j)" unfolding u by (simp add: q_def)
  have "round_half_even (q / ulp q) = n * 2 ^ j" unfolding d by (rule round_half_even_of_int)
  then have "fl q = of_int (n * 2 ^ j) * ulp q" using q0 by (simp add: fl_def)
  also have "\<dots> = q" unfolding u by (simp add: q_def)
  finally show ?thesis by (simp add: q_def)
qed

section \<open>Level creation\<close>

lemma add_alien_fields:
  "currentLevel (add_alien row col now g) = currentLevel g"
  "gameState (add_alien row col now g) = gameState g"
  "pressedKeys (add_alien row col now g) = pressedKeys g"
  "playerGroup (add_alien row col now g) = playerGroup g"
  "bulletGroup (add_alien row col now g) = bulletGroup g"
  "enemyBulletGroup (add_alien row col now g) = enemyBulletGroup g"
  "length (alienGroup (add_alien row col now g)) = Suc (length (alienGroup g))"
  by (simp_all add: add_alien_def alloc_def)

lemma add_row_fields:
  "currentLevel (foldl (\<lambda>gb col. add_alien row col now gb) g cls) = currentLevel g"
  "gameState (foldl (\<lambda>gb col. add_alien row col now gb) g cls) = gameState g"
  "pressedKeys (foldl (\<lambda>gb col. add_alien row col now gb) g cls) = pressedKeys g"
  "playerGroup (foldl (\<lambda>gb col. add_alien row col now gb) g cls) = playerGroup g"
  "bulletGroup (foldl (\<lambda>gb col. add_alien row col now gb) g cls) = bulletGroup g"
  "enemyBulletGroup (foldl (\<lambda>gb col. add_alien row col now gb) g cls) = enemyBulletGroup g"
  "length (alienGroup (foldl (\<lambda>gb col. add_alien row col now gb) g cls))
     = length (alienGroup g) + length cls"
  by (induction cls arbitrary: g; simp add: add_alien_fields)+

lemma populateAliens_fields:
  "currentLevel (populateAliens now rws cls g) = currentLevel g"
  "gameState (populateAliens now rws cls g) = gameState g"
  "pressedKeys (populateAliens now rws cls g) = pressedKeys g"
  "playerGroup (populateAliens now rws cls g) = playerGroup g"
  "bulletGroup (populateAliens now rws cls g) = bulletGroup g"
  "enemyBulletGroup (populateAliens now rws cls g) = enemyBulletGroup g"
  "length (alienGroup (populateAliens now rws cls g))
     = length (alienGroup g) + length rws * length cls"
  unfolding populateAliens_def
  by (induction rws arbitrary: g; simp add: add_row_fields)+

lemma startGameLoop_fields:
  "currentLevel (startGameLoop now g) = currentLevel g"
  "gameState (startGameLoop now g) = gameState g"
  "pressedKeys (startGameLoop now g) = pressedKeys g"
  "movingRight (startGameLoop now g) = True"
  "lastShotTime (startGameLoop now g) = now"
  "bulletGroup (startGameLoop now g) = []"
  "enemyBulletGroup (startGameLoop now g) = []"
  "playerGroup (startGameLoop now g) = [nextAddr g]"
  "alienShootInterval (startGameLoop now g) = Some (max (600 - (currentLevel g - 1) * 100) 300)"
  "length (alienGroup (startGameLoop now g)) = nat (3 + (currentLevel g - 1)) * 10"
  "initialAlienCount (startGameLoop now g) = nat (3 + (currentLevel g - 1)) * 10"
  by (simp_all add: startGameLoop_def alloc_def Let_def populateAliens_fields)

text \<open>
  Claim C7. For every level \<open>N\<close> the enemy-fire timer registered by \<open>startGameLoop\<close> has
  the period \<open>max (600 - (N - 1) * 100) 300\<close>: 600 at level 1, 400 at level 3 and the
  floor 300 from level 4 on.
\<close>

theorem startGameLoop_fire_period:
  "alienShootInterval (startGameLoop now g) = Some (max (600 - (currentLevel g - 1) * 100) 300)
   \<and> (currentLevel g = 1 \<longrightarrow> alienShootInterval (startGameLoop now g) = Some 600)
   \<and> (currentLevel g = 3 \<longrightarrow> alienShootInterval (startGameLoop now g) = Some 400)
   \<and> (4 \<le> currentLevel g \<longrightarrow> alienShootInterval (startGameLoop now g) = Some 300)"
  by (simp add: startGameLoop_fields)

theorem startGameLoop_fire_period_witness:
  "alienShootInterval (startGameLoop 0 initial_game) = Some 600
   \<and> alienShootInterval (startGameLoop 0 (initial_game\<lparr>currentLevel := 3\<rparr>)) = Some 400
   \<and> alienShootInterval (startGameLoop 0 (initial_game\<lparr>currentLevel := 5\<rparr>)) = Some 300"
  using startGameLoop_fire_period [of 0 initial_game]
    startGameLoop_fire_period [of 0 "initial_game\<lparr>currentLevel := 3\<rparr>"]
    startGameLoop_fire_period [of 0 "initial_game\<lparr>currentLevel := 5\<rparr>"]
  by (simp add: initial_game_def)

section \<open>The player stays on the screen\<close>

lemma fl_numeral: "\<bar>numeral w :: int\<bar> < 2 ^ 53 \<Longrightarrow> fl (numeral w) = numeral w"
  using fl_of_int [of "numeral w"] by simp

lemma new_Player_box:
  "x (rect new_Player) = 375" "y (rect new_Player) = 530"
  "width (rect new_Player) = 50" "height (rect new_Player) = 60"
  "speed new_Player = 3" "isAlive new_Player" "kind new_Player = Player"
  by (simp_all add: new_Player_def setRect_def Sprite_def WIDTH_def HEIGHT_def
      jdiv_def jsub_def fl_numeral)

lemma Player_update_keeps:
  "width (rect (Player_update keys p)) = width (rect p)"
  "height (rect (Player_update keys p)) = height (rect p)"
  "y (rect (Player_update keys p)) = y (rect p)"
  "speed (Player_update keys p) = speed p"
  "isAlive (Player_update keys p) = isAlive p"
  "kind (Player_update keys p) = kind p"
  by (simp_all add: Player_update_def Let_def)

lemma Player_update_grid:
  assumes px: "x (rect p) = of_int (3 * k)" and k: "0 \<le> k" "k \<le> 250"
    and w: "width (rect p) = 50" and sp: "speed p = 3"
  shows "\<exists>k'. 0 \<le> k' \<and> k' \<le> 250 \<and> x (rect (Player_update keys p)) = of_int (3 * k')"
proof -
  define k1 where "k1 = (if keys ArrowLeft \<and> 0 < k then k - 1 else k)"
  define s1 where "s1 = (if keys ArrowLeft \<and> 0 < x (rect p)
                then p\<lparr>rect := (rect p)\<lparr>x := jsub (x (rect p)) (speed p)\<rparr>\<rparr> else p)"
  have k1: "0 \<le> k1" "k1 \<le> 250" using k by (simp_all add: k1_def)
  have pos: "0 < x (rect p) \<longleftrightarrow> 0 < k" by (simp add: px)
  have "jsub (of_int (3 * k)) 3 = fl (of_int (3 * k - 3))" by (simp add: jsub_def)
  also have "\<dots> = of_int (3 * k - 3)" using k by (intro fl_of_int) simp
  finally have left: "jsub (of_int (3 * k)) 3 = of_int (3 * (k - 1))" by (simp add: algebra_simps)
  have s1x: "x (rect s1) = of_int (3 * k1)"
    using left by (simp add: s1_def k1_def px sp pos)
  have s1w: "width (rect s1) = 50" "speed s1 = 3" by (simp_all add: s1_def w sp)
  have "jadd (of_int (3 * k1)) 50 = fl (of_int (3 * k1 + 50))" by (simp add: jadd_def)
  also have "\<dots> = of_int (3 * k1 + 50)" using k1 by (intro fl_of_int) simp
  finally have e50: "jadd (of_int (3 * k1)) 50 = of_int (3 * k1 + 50)" .
  have "(of_int (3 * k1 + 50) :: rat) < of_int 800 \<longleftrightarrow> 3 * k1 + 50 < 800"
    by (rule of_int_less_iff)
  then have "(of_int (3 * k1 + 50) :: rat) < 800 \<longleftrightarrow> k1 < 250" by simp
  then have edge: "jadd (x (rect s1)) (width (rect s1)) < WIDTH \<longleftrightarrow> k1 < 250"
    unfolding s1x s1w WIDTH_def e50 .
  have "jadd (of_int (3 * k1)) 3 = fl (of_int (3 * k1 + 3))" by (simp add: jadd_def)
  also have "\<dots> = of_int (3 * k1 + 3)" using k1 by (intro fl_of_int) simp
  finally have right: "jadd (of_int (3 * k1)) 3 = of_int (3 * (k1 + 1))" by (simp add: algebra_simps)
  have upd: "Player_update keys p =
      (if keys ArrowRight \<and> k1 < 250
       then s1\<lparr>rect := (rect s1)\<lparr>x := jadd (x (rect s1)) (speed s1)\<rparr>\<rparr> else s1)"
    unfolding Player_update_def Let_def s1_def [symmetric] edge ..
  show ?thesis
  proof (cases "keys ArrowRight \<and> k1 < 250")
    case True
    then have "x (rect (Player_update keys p)) = of_int (3 * (k1 + 1))"
      using right by (simp add: upd s1x s1w)
    moreover have "0 \<le> k1 + 1" "k1 + 1 \<le> 250" using k1 True by simp_all
    ultimately show ?thesis by blast
  next
    case False
    have "Player_update keys p = s1" unfolding upd by (rule if_not_P [OF False])
    then have "x (rect (Player_update keys p)) = of_int (3 * k1)"
      by (simp add: s1x)
    then show ?thesis using k1 by blast
  qed
qed

lemma reachable_player_grid:
  assumes "reachable_player p"
  shows "(\<exists>k. 0 \<le> k \<and> k \<le> 250 \<and> x (rect p) = of_int (3 * k))
     \<and> width (rect p) = 50 \<and> speed p = 3"
  using assms
proof (induction rule: reachable_player.induct)
  case created
  have "(0::int) \<le> 125 \<and> (125::int) \<le> 250 \<and> x (rect new_Player) = of_int (3 * 125)"
    by (simp add: new_Player_box)
  then show ?case using new_Player_box by blast
next
  case (updated p keys)
  then obtain k where "0 \<le> k" "k \<le> 250" "x (rect p) = of_int (3 * k)"
    and "width (rect p) = 50" "speed p = 3" by blast
  then show ?case
    using Player_update_grid [of p k keys] by (simp add: Player_update_keeps)
qed

text \<open>
  Claim C2. Whatever keys are held, one \<open>Player.update\<close> of a player in a position that
  can be reached (from construction, by updates) leaves the box inside the screen:
  \<open>0 \<le> x\<close> and \<open>x + width \<le> 800\<close>. The reachable positions are the multiples of 3 from 0
  to 750, all exact in binary64.
\<close>

theorem Player_update_within_screen:
  assumes "reachable_player p"
  shows "0 \<le> x (rect (Player_update keys p))
     \<and> x (rect (Player_update keys p)) + width (rect (Player_update keys p)) \<le> WIDTH"
proof -
  have "reachable_player (Player_update keys p)"
    using assms by (rule reachable_player.updated)
  then obtain k where k: "0 \<le> k" "k \<le> 250"
    and px: "x (rect (Player_update keys p)) = of_int (3 * k)"
    and w: "width (rect (Player_update keys p)) = 50"
    using reachable_player_grid by blast
  have "3 * k \<le> 750" "0 \<le> 3 * k" using k by simp_all
  then have "(of_int (3 * k) :: rat) \<le> of_int 750" "(of_int 0 :: rat) \<le> of_int (3 * k)"
    by (simp_all only: of_int_le_iff)
  then show ?thesis by (simp add: px w WIDTH_def)
qed

theorem Player_update_within_screen_witness:
  "reachable_player new_Player
   \<and> 0 \<le> x (rect (Player_update (\<lambda>k. k = ArrowLeft) new_Player))
   \<and> x (rect (Player_update (\<lambda>k. k = ArrowLeft) new_Player))
       + width (rect (Player_update (\<lambda>k. k = ArrowLeft) new_Player)) \<le> WIDTH"
  using Player_update_within_screen [OF reachable_player.created, of "\<lambda>k. k = ArrowLeft"]
    reachable_player.created by simp

section \<open>The speed multiplier\<close>

lemma powi2_neg: "(2::rat) powi (- int n) = 1 / 2 ^ n"
  by (simp add: power_int_minus field_simps)

lemma ulp_le:
  assumes "q \<noteq> 0" and "\<bar>q\<bar> < 2 powi k" and "- 1021 \<le> k"
  shows "ulp q \<le> 2 powi (k - 53)"
proof -
  have "(2::rat) powi (flog2 q) \<le> \<bar>q\<bar>" by (rule flog2_bounds [OF assms(1)])
  also have "\<bar>q\<bar> < 2 powi k" by (rule assms(2))
  finally have "flog2 q < k" by (rule powi2_less_imp)
  then have "max (flog2 q) (- 1022) - 52 \<le> k - 53" using assms(3) by simp
  then show ?thesis unfolding ulp_def by (intro power_int_increasing) simp_all
qed

lemma fl_err_below:
  assumes "\<bar>q\<bar> < 2 powi k" and "- 1021 \<le> k"
  shows "\<bar>fl q - q\<bar> \<le> 2 powi (k - 54)"
proof (cases "q = 0")
  case True
  then show ?thesis by (simp add: fl_def)
next
  case False
  have "\<bar>fl q - q\<bar> \<le> ulp q / 2" by (rule fl_err)
  also have "\<dots> \<le> 2 powi (k - 53) / 2" using ulp_le [OF False assms] by simp
  also have "\<dots> = 2 powi (k - 54)"
  proof -
    have "(2::rat) powi (k - 53) = 2 powi (k - 54 + 1)" by simp
    also have "\<dots> = 2 powi (k - 54) * 2" by (subst power_int_add) simp_all
    finally show ?thesis by simp
  qed
  finally show ?thesis .
qed

lemma speedMultiplier_err:
  assumes c: "0 < c" "c \<le> i" and i: "i < 2 ^ 53"
  shows "\<bar>speedMultiplier i c - (1 + (of_nat i - of_nat c) / of_nat i)\<bar> \<le> 1 / 2 ^ 51"
proof -
  define a :: rat where "a = (of_nat i - of_nat c) / of_nat i"
  have ipos: "(0::rat) < of_nat i" using c by simp
  have a0: "0 \<le> a" using c by (simp add: a_def)
  have a1: "a < 1" using c ipos by (simp add: a_def)
  have "int i - int c < 2 ^ 53" "0 \<le> int i - int c" using c i by simp_all
  then have "\<bar>int i - int c\<bar> < 2 ^ 53" by simp
  then have "fl (of_int (int i - int c)) = of_int (int i - int c)" by (rule fl_of_int)
  then have sub: "jsub (of_nat i) (of_nat c) = of_nat i - of_nat c"
    by (simp add: jsub_def)
  define d where "d = fl a"
  have "\<bar>a\<bar> < 2 powi 0" using a0 a1 by simp
  then have "\<bar>fl a - a\<bar> \<le> 2 powi (0 - 54)" by (rule fl_err_below) simp
  moreover have "(2::rat) powi (0 - 54) = 1 / 2 ^ 54" using powi2_neg [of 54] by simp
  ultimately have d_err: "\<bar>d - a\<bar> \<le> 1 / 2 ^ 54" by (simp only: d_def)
  have "\<bar>1 + d\<bar> < 2 powi 2" using d_err a0 a1 by (simp add: abs_if split: if_splits)
  then have "\<bar>fl (1 + d) - (1 + d)\<bar> \<le> 2 powi (2 - 54)" by (rule fl_err_below) simp
  moreover have "(2::rat) powi (2 - 54) = 1 / 2 ^ 52" using powi2_neg [of 52] by simp
  ultimately have s_err: "\<bar>fl (1 + d) - (1 + d)\<bar> \<le> 1 / 2 ^ 52" by (simp only:)
  have sm: "speedMultiplier i c = fl (1 + d)"
    using c by (simp add: speedMultiplier_def sub jadd_def jdiv_def d_def a_def)
  have "\<bar>fl (1 + d) - (1 + a)\<bar> \<le> \<bar>fl (1 + d) - (1 + d)\<bar> + \<bar>d - a\<bar>" by simp
  also have "\<dots> \<le> 1 / 2 ^ 52 + 1 / 2 ^ 54" using s_err d_err by simp
  also have "\<dots> \<le> 1 / 2 ^ 51" by simp
  finally show ?thesis by (simp add: sm a_def)
qed

lemma speedMultiplier_full: "0 < i \<Longrightarrow> speedMultiplier i i = 1"
  using fl_of_int [of 1] by (simp add: speedMultiplier_def jadd_def jsub_def jdiv_def fl_def)

lemma speedMultiplier_30_1: "speedMultiplier 30 1 = 1107134908395247 / 2 ^ 49"
  by code_simp

text \<open>
  The value at one alien left of thirty is a binary64 number, a fraction with a power of
  two as denominator; \<open>59 / 30\<close> is not one. Nor is the value the binary64 number nearest
  to \<open>59 / 30\<close>, which is what the expression \<open>59 / 30\<close> gives: it is the next one above.
\<close>

lemma nearest_59_30: "jdiv 59 30 = 8857079267161975 / 2 ^ 52"
  by code_simp

theorem speedMultiplier_not_59_30:
  "speedMultiplier 30 1 \<noteq> 59 / 30 \<and> speedMultiplier 30 1 \<noteq> jdiv 59 30"
  using speedMultiplier_30_1 nearest_59_30 by simp

section \<open>Group update passes\<close>

lemma SpriteGroup_update_Cons:
  "fst (SpriteGroup_update f h (a # as)) =
     (if isAlive (h a) then fst (SpriteGroup_update f (h(a := f (h a))) as)
      else fst (SpriteGroup_update f h as))"
  "snd (SpriteGroup_update f h (a # as)) =
     (if isAlive (h a) then a # snd (SpriteGroup_update f (h(a := f (h a))) as)
      else snd (SpriteGroup_update f h as))"
  by (simp_all split: prod.splits)

lemma SpriteGroup_update_dead:
  "\<not> isAlive (h a) \<Longrightarrow> fst (SpriteGroup_update f h grp) a = h a"
proof (induction grp arbitrary: h)
  case Nil
  then show ?case by simp
next
  case (Cons b bs)
  show ?case
  proof (cases "isAlive (h b)")
    case True
    then have ne: "a \<noteq> b" using Cons.prems by auto
    have "fst (SpriteGroup_update f h (b # bs)) a
        = fst (SpriteGroup_update f (h(b := f (h b))) bs) a"
      using True by (simp only: SpriteGroup_update_Cons if_True)
    also have "\<dots> = (h(b := f (h b))) a"
      by (rule Cons.IH) (use ne Cons.prems in simp)
    also have "\<dots> = h a" using ne by simp
    finally show ?thesis .
  next
    case False
    then show ?thesis
      using Cons by (simp add: SpriteGroup_update_Cons del: SpriteGroup_update.simps(2))
  qed
qed

lemma SpriteGroup_update_outside:
  "a \<notin> set grp \<Longrightarrow> fst (SpriteGroup_update f h grp) a = h a"
  by (induction grp arbitrary: h) (auto simp: SpriteGroup_update_Cons simp del: SpriteGroup_update.simps(2))

lemma SpriteGroup_update_subset:
  "set (snd (SpriteGroup_update f h grp)) \<subseteq> set grp"
  by (induction grp arbitrary: h) (auto simp: SpriteGroup_update_Cons simp del: SpriteGroup_update.simps(2))

lemma SpriteGroup_update_kept:
  "distinct grp \<Longrightarrow> snd (SpriteGroup_update f h grp) = filter (\<lambda>a. isAlive (h a)) grp"
proof (induction grp arbitrary: h)
  case Nil
  then show ?case by simp
next
  case (Cons a as)
  have "filter (\<lambda>b. isAlive ((h(a := f (h a))) b)) as = filter (\<lambda>b. isAlive (h b)) as"
    using Cons.prems by (intro filter_cong) auto
  then show ?case using Cons
    by (simp add: SpriteGroup_update_Cons del: SpriteGroup_update.simps(2))
qed

lemma SpriteGroup_update_store:
  "distinct grp \<Longrightarrow>
   fst (SpriteGroup_update f h grp) a = (if a \<in> set grp \<and> isAlive (h a) then f (h a) else h a)"
proof (induction grp arbitrary: h)
  case Nil
  then show ?case by simp
next
  case (Cons b bs)
  show ?case
  proof (cases "isAlive (h b)")
    case True
    have "fst (SpriteGroup_update f h (b # bs)) a
        = fst (SpriteGroup_update f (h(b := f (h b))) bs) a"
      using True by (simp only: SpriteGroup_update_Cons if_True)
    also have "\<dots> = (if a \<in> set bs \<and> isAlive ((h(b := f (h b))) a)
                      then f ((h(b := f (h b))) a) else (h(b := f (h b))) a)"
      using Cons.prems by (intro Cons.IH) simp
    finally show ?thesis using Cons.prems True by auto
  next
    case False
    have "fst (SpriteGroup_update f h (b # bs)) a = fst (SpriteGroup_update f h bs) a"
      using False by (simp only: SpriteGroup_update_Cons if_False)
    also have "\<dots> = (if a \<in> set bs \<and> isAlive (h a) then f (h a) else h a)"
      using Cons.prems by (intro Cons.IH) simp
    finally show ?thesis using False by auto
  qed
qed

lemma SpriteGroup_update_distinct:
  "distinct grp \<Longrightarrow> distinct (snd (SpriteGroup_update f h grp))"
  by (simp add: SpriteGroup_update_kept)

text \<open>
  A bullet that kills itself during the pass is still in the group when the pass is over.
\<close>

theorem SpriteGroup_update_keeps_killed:
  "isAlive (leaving_bullet 0)
   \<and> \<not> isAlive (fst (SpriteGroup_update Bullet_update leaving_bullet [0]) 0)
   \<and> snd (SpriteGroup_update Bullet_update leaving_bullet [0]) = [0]"
  unfolding leaving_bullet_def by code_simp

text \<open>
  Claim C1, as the code has it. A group whose array holds no sprite twice contains, after
  one update pass, exactly the sprites that were alive when the pass began, in their
  order; each of them has been updated once and nothing else in the store has changed. A
  sprite killed by its own update is therefore still a member after the pass; it is
  dropped by the next pass, whose result holds the sprites alive before the first pass
  and not killed by it.
\<close>

theorem SpriteGroup_update_membership:
  assumes "distinct grp"
  shows "snd (SpriteGroup_update f h grp) = filter (\<lambda>a. isAlive (h a)) grp
     \<and> (\<forall>a. fst (SpriteGroup_update f h grp) a
            = (if a \<in> set grp \<and> isAlive (h a) then f (h a) else h a))
     \<and> snd (SpriteGroup_update f' (fst (SpriteGroup_update f h grp))
                (snd (SpriteGroup_update f h grp)))
         = filter (\<lambda>a. isAlive (h a) \<and> isAlive (f (h a))) grp"
proof -
  let ?h' = "fst (SpriteGroup_update f h grp)" and ?g' = "snd (SpriteGroup_update f h grp)"
  have kept: "?g' = filter (\<lambda>a. isAlive (h a)) grp"
    using assms by (rule SpriteGroup_update_kept)
  have store: "\<And>a. ?h' a = (if a \<in> set grp \<and> isAlive (h a) then f (h a) else h a)"
    using assms by (rule SpriteGroup_update_store)
  have "distinct ?g'" using assms by (rule SpriteGroup_update_distinct)
  then have "snd (SpriteGroup_update f' ?h' ?g') = filter (\<lambda>a. isAlive (?h' a)) ?g'"
    by (rule SpriteGroup_update_kept)
  also have "\<dots> = filter (\<lambda>a. isAlive (h a) \<and> isAlive (f (h a))) grp"
    unfolding kept filter_filter by (intro filter_cong) (auto simp: store)
  finally show ?thesis using kept store by blast
qed


theorem SpriteGroup_update_membership_witness:
  "distinct [0::nat]
   \<and> snd (SpriteGroup_update Bullet_update leaving_bullet [0]) = [0]
   \<and> snd (SpriteGroup_update Bullet_update
             (fst (SpriteGroup_update Bullet_update leaving_bullet [0]))
             (snd (SpriteGroup_update Bullet_update leaving_bullet [0]))) = []"
proof -
  have a: "isAlive (leaving_bullet 0)" and b: "\<not> isAlive (Bullet_update (leaving_bullet 0))"
    unfolding leaving_bullet_def by code_simp+
  show ?thesis
    using SpriteGroup_update_membership [of "[0]" Bullet_update leaving_bullet Bullet_update] a b
    by simp
qed

section \<open>Collisions only kill\<close>

lemma kills_only_refl: "kills_only h h"
  by (simp add: kills_only_def)

lemma kill_kill: "kill (kill s) = kill s"
  by (simp add: kill_def)

lemma kills_only_trans: "kills_only h1 h2 \<Longrightarrow> kills_only h2 h3 \<Longrightarrow> kills_only h1 h3"
  unfolding kills_only_def by (metis kill_kill)

lemma kills_only_kill: "kills_only h (h(a := kill (h a)))"
  by (simp add: kills_only_def)

lemma kills_only_rect: "kills_only h h' \<Longrightarrow> rect (h' a) = rect (h a)"
  unfolding kills_only_def kill_def by (metis sprite.select_convs(1) sprite.surjective sprite.update_convs(2))

lemma kills_only_dead: "kills_only h h' \<Longrightarrow> \<not> isAlive (h a) \<Longrightarrow> \<not> isAlive (h' a)"
  unfolding kills_only_def kill_def by (metis sprite.select_convs(2) sprite.surjective sprite.update_convs(2))

lemma kills_only_alive: "kills_only h h' \<Longrightarrow> isAlive (h' a) \<Longrightarrow> h' a = h a"
  unfolding kills_only_def kill_def by (metis sprite.select_convs(2) sprite.surjective sprite.update_convs(2))

lemma collide_pair_kills_only: "kills_only (fst st) (fst (collide_pair k1 k2 st p))"
  by (auto simp: collide_pair_def Let_def kills_only_def kill_kill)

lemma foldl_collide_pair_kills_only:
  "kills_only (fst st) (fst (foldl (collide_pair k1 k2) st ps))"
proof (induction ps arbitrary: st)
  case Nil
  then show ?case by (simp add: kills_only_refl)
next
  case (Cons p ps)
  show ?case
    using kills_only_trans [OF collide_pair_kills_only Cons.IH] by simp
qed

lemma foldl_product:
  "foldl (\<lambda>st a. foldl (\<lambda>st' b. f st' (a, b)) st bs) st0 as = foldl f st0 (List.product as bs)"
proof (induction as arbitrary: st0)
  case Nil
  then show ?case by simp
next
  case (Cons a as)
  have "foldl f st0 (map (Pair a) bs) = foldl (\<lambda>st' b. f st' (a, b)) st0 bs"
    by (simp add: foldl_map)
  then show ?case using Cons by simp
qed

lemma groupCollide_product:
  "groupCollide h g1 g2 k1 k2 = foldl (collide_pair k1 k2) (h, []) (List.product g1 g2)"
  unfolding groupCollide_def by (rule foldl_product)

lemma groupCollide_upto:
  "groupCollide h g1 g2 k1 k2 = collide_upto k1 k2 h g1 g2 (length g1 * length g2)"
  by (simp add: groupCollide_product collide_upto_def)

lemma groupCollide_kills_only: "kills_only h (fst (groupCollide h g1 g2 k1 k2))"
  using foldl_collide_pair_kills_only [of "(h, [])"] by (simp add: groupCollide_product)

lemma collide_upto_Suc:
  "n < length (List.product g1 g2) \<Longrightarrow>
   collide_upto k1 k2 h g1 g2 (Suc n)
     = collide_pair k1 k2 (collide_upto k1 k2 h g1 g2 n) (List.product g1 g2 ! n)"
  by (simp add: collide_upto_def take_Suc_conv_app_nth)

lemma collide_upto_mono:
  assumes "n \<le> m"
  shows "kills_only (fst (collide_upto k1 k2 h g1 g2 n)) (fst (collide_upto k1 k2 h g1 g2 m))"
proof -
  let ?ps = "List.product g1 g2"
  have "take m ?ps = take n ?ps @ drop n (take m ?ps)"
    using assms by (metis append_take_drop_id min.absorb1 take_take)
  then have "collide_upto k1 k2 h g1 g2 m
      = foldl (collide_pair k1 k2) (collide_upto k1 k2 h g1 g2 n) (drop n (take m ?ps))"
    unfolding collide_upto_def by (metis foldl_append)
  then show ?thesis by (simp add: foldl_collide_pair_kills_only)
qed

lemma collide_pair_dead:
  "\<not> isAlive (fst st (fst p)) \<or> \<not> isAlive (fst st (snd p)) \<Longrightarrow> collide_pair k1 k2 st p = st"
  by (auto simp: collide_pair_def Let_def)

text \<open>
  Claim C4. \<open>groupCollide\<close> is the run of \<open>collide_pair\<close> over the pairs in order. At
  every point of one call: a sprite that is dead stays dead; a visit of a pair one of
  whose members is already dead changes neither the store nor the recorded collisions, so
  a dead sprite takes part in no further match; and for each sprite there is at most one
  visit at which its alive flag goes from true to false.
\<close>

theorem groupCollide_no_double_kill:
  "groupCollide h g1 g2 k1 k2 = collide_upto k1 k2 h g1 g2 (length g1 * length g2)
   \<and> (\<forall>n m e. n \<le> m \<and> \<not> isAlive (fst (collide_upto k1 k2 h g1 g2 n) e)
         \<longrightarrow> \<not> isAlive (fst (collide_upto k1 k2 h g1 g2 m) e))
   \<and> (\<forall>n m e. n \<le> m \<and> m < length g1 * length g2
         \<and> \<not> isAlive (fst (collide_upto k1 k2 h g1 g2 n) e)
         \<and> (fst (List.product g1 g2 ! m) = e \<or> snd (List.product g1 g2 ! m) = e)
         \<longrightarrow> collide_upto k1 k2 h g1 g2 (Suc m) = collide_upto k1 k2 h g1 g2 m)
   \<and> (\<forall>e. card {n. n < length g1 * length g2
               \<and> isAlive (fst (collide_upto k1 k2 h g1 g2 n) e)
               \<and> \<not> isAlive (fst (collide_upto k1 k2 h g1 g2 (Suc n)) e)} \<le> 1)"
proof -
  let ?run = "collide_upto k1 k2 h g1 g2"
  have stay: "\<not> isAlive (fst (?run m) e)" if "n \<le> m" "\<not> isAlive (fst (?run n) e)" for n m e
    using kills_only_dead [OF collide_upto_mono [OF that(1)] that(2)] .
  have skip: "?run (Suc m) = ?run m"
    if "n \<le> m" "m < length g1 * length g2" "\<not> isAlive (fst (?run n) e)"
      "fst (List.product g1 g2 ! m) = e \<or> snd (List.product g1 g2 ! m) = e" for n m e
  proof -
    have "\<not> isAlive (fst (?run m) e)" using stay that by blast
    then have "\<not> isAlive (fst (?run m) (fst (List.product g1 g2 ! m)))
        \<or> \<not> isAlive (fst (?run m) (snd (List.product g1 g2 ! m)))"
      using that(4) by auto
    then show ?thesis
      using that(2) by (simp add: collide_upto_Suc collide_pair_dead)
  qed
  have once: "card {n. n < length g1 * length g2 \<and> isAlive (fst (?run n) e)
               \<and> \<not> isAlive (fst (?run (Suc n)) e)} \<le> 1" for e
  proof -
    let ?T = "{n. n < length g1 * length g2 \<and> isAlive (fst (?run n) e)
               \<and> \<not> isAlive (fst (?run (Suc n)) e)}"
    have eq: "a = b" if "a \<in> ?T" "b \<in> ?T" for a b
    proof (rule ccontr)
      assume "a \<noteq> b"
      then consider "Suc a \<le> b" | "Suc b \<le> a" by linarith
      then show False
      proof cases
        case 1
        then show ?thesis using stay [of "Suc a" b e] that by simp
      next
        case 2
        then show ?thesis using stay [of "Suc b" a e] that by simp
      qed
    qed
    have "finite ?T" by simp
    then show ?thesis using eq by (simp add: card_le_Suc0_iff_eq)
  qed
  show ?thesis using groupCollide_upto stay skip once by blast
qed

theorem groupCollide_no_double_kill_witness:
  "\<not> isAlive (fst (collide_upto True True double_hit [0, 1] [2] 1) 2)
   \<and> collide_upto True True double_hit [0, 1] [2] (Suc 1)
       = collide_upto True True double_hit [0, 1] [2] 1
   \<and> card {n. n < length [0::nat, 1] * length [2::nat]
               \<and> isAlive (fst (collide_upto True True double_hit [0, 1] [2] n) 2)
               \<and> \<not> isAlive (fst (collide_upto True True double_hit [0, 1] [2] (Suc n)) 2)} \<le> 1"
proof -
  note T = groupCollide_no_double_kill [of double_hit "[0, 1]" "[2]" True True]
  have d: "\<not> isAlive (fst (collide_upto True True double_hit [0, 1] [2] 1) 2)"
    by code_simp
  have p: "snd (List.product [0::nat, 1] [2::nat] ! 1) = 2" by simp
  have "(1::nat) \<le> 1 \<and> 1 < length [0::nat, 1] * length [2::nat]
      \<and> \<not> isAlive (fst (collide_upto True True double_hit [0, 1] [2] 1) 2)
      \<and> (fst (List.product [0::nat, 1] [2::nat] ! 1) = 2 \<or> snd (List.product [0::nat, 1] [2::nat] ! 1) = 2)"
    using d p by simp
  then have s: "collide_upto True True double_hit [0, 1] [2] (Suc 1)
       = collide_upto True True double_hit [0, 1] [2] 1"
    by (rule T [THEN conjunct2, THEN conjunct2, THEN conjunct1, rule_format])
  show ?thesis
    using d s T [THEN conjunct2, THEN conjunct2, THEN conjunct2, rule_format, of 2]
    by (intro conjI)
qed

section \<open>Dead sprites stay dead\<close>

lemma dead_kept_refl: "dead_kept h h"
  by (simp add: dead_kept_def)

lemma dead_kept_trans: "dead_kept h1 h2 \<Longrightarrow> dead_kept h2 h3 \<Longrightarrow> dead_kept h1 h3"
  by (simp add: dead_kept_def)

lemma kills_only_dead_kept: "kills_only h h' \<Longrightarrow> dead_kept h h'"
  using kills_only_dead by (auto simp: dead_kept_def)

lemma SpriteGroup_update_dead_kept: "dead_kept h (fst (SpriteGroup_update f h grp))"
  by (simp add: dead_kept_def SpriteGroup_update_dead)

lemma descend_isAlive: "isAlive (descend d h grp a) = isAlive (h a)"
  unfolding descend_def by (induction grp arbitrary: h) simp_all

lemma descend_dead_kept: "dead_kept h (descend d h grp)"
  by (simp add: dead_kept_def descend_isAlive)

lemma spriteCollide_visit_kills_only: "kills_only (fst st) (fst (spriteCollide_visit sp k st s))"
  by (simp add: spriteCollide_visit_def Let_def kills_only_def)

lemma foldl_spriteCollide_visit_kills_only:
  "kills_only (fst st) (fst (foldl (spriteCollide_visit sp k) st grp))"
proof (induction grp arbitrary: st)
  case Nil
  then show ?case by (simp add: kills_only_refl)
next
  case (Cons s grp)
  show ?case
    using kills_only_trans [OF spriteCollide_visit_kills_only Cons.IH] by simp
qed

lemma spriteCollide_kills_only: "kills_only h (fst (spriteCollide h sp grp k))"
  using foldl_spriteCollide_visit_kills_only [of "(h, [])"]
  by (simp add: spriteCollide_def kills_only_refl)

lemma playerHit_kills_only: "kills_only (heap g) (fst (playerHit g grp k))"
proof (cases "playerGroup g")
  case Nil
  then show ?thesis by (simp add: playerHit_def kills_only_refl)
next
  case (Cons p ps)
  then have "fst (playerHit g grp k) = fst (spriteCollide (heap g) p grp k)"
    by (simp add: playerHit_def case_prod_beta)
  then show ?thesis by (simp add: spriteCollide_kills_only)
qed

lemma updateGroups_heap:
  "dead_kept (heap g) (heap (updateGroups g))"
  "nextAddr (updateGroups g) = nextAddr g"
proof -
  let ?h1 = "fst (SpriteGroup_update (Player_update (pressedKeys g)) (heap g) (playerGroup g))"
  let ?h2 = "fst (SpriteGroup_update Bullet_update ?h1 (bulletGroup g))"
  let ?h3 = "fst (SpriteGroup_update EnemyBullet_update ?h2 (enemyBulletGroup g))"
  have h: "heap (updateGroups g) = ?h3"
    by (simp add: updateGroups_def Let_def case_prod_beta)
  have "dead_kept (heap g) ?h1" by (rule SpriteGroup_update_dead_kept)
  moreover have "dead_kept ?h1 ?h2" by (rule SpriteGroup_update_dead_kept)
  moreover have "dead_kept ?h2 ?h3" by (rule SpriteGroup_update_dead_kept)
  ultimately have "dead_kept (heap g) ?h3" by (meson dead_kept_trans)
  then show "dead_kept (heap g) (heap (updateGroups g))" by (simp only: h)
  show "nextAddr (updateGroups g) = nextAddr g"
    by (simp add: updateGroups_def Let_def case_prod_beta)
qed

lemma moveFormation_heap:
  "dead_kept (heap g) (heap (moveFormation now g))"
  "nextAddr (moveFormation now g) = nextAddr g"
proof -
  define g1 where "g1 = (if edgeReached (movingRight g) (heap g) (alienGroup g)
                then g\<lparr>movingRight := \<not> movingRight g,
                       heap := descend (of_int (10 + currentLevel g * 5)) (heap g) (alienGroup g)\<rparr>
                else g)"
  have h: "heap (moveFormation now g) =
      fst (SpriteGroup_update
            (Alien_update (movingRight g1)
               (speedMultiplier (initialAlienCount g1) (length (alienGroup g1))) now)
            (heap g1) (alienGroup g1))"
    by (simp add: moveFormation_def Let_def case_prod_beta g1_def)
  have "dead_kept (heap g) (heap g1)"
    by (simp add: g1_def descend_dead_kept dead_kept_refl)
  then show "dead_kept (heap g) (heap (moveFormation now g))"
    unfolding h using SpriteGroup_update_dead_kept dead_kept_trans by blast
  show "nextAddr (moveFormation now g) = nextAddr g"
    by (simp add: moveFormation_def Let_def case_prod_beta)
qed

lemma bulletsHitAliens_heap:
  "dead_kept (heap g) (heap (bulletsHitAliens g))"
  "nextAddr (bulletsHitAliens g) = nextAddr g"
  by (simp_all add: bulletsHitAliens_def kills_only_dead_kept groupCollide_kills_only)

lemma playing_advance_heap:
  "dead_kept (heap g) (heap (playing_advance now g))"
  "nextAddr (playing_advance now g) = nextAddr g"
proof -
  show "nextAddr (playing_advance now g) = nextAddr g"
    by (simp add: playing_advance_def bulletsHitAliens_heap moveFormation_heap updateGroups_heap)
  have "dead_kept (heap g) (heap (moveFormation now (updateGroups g)))"
    using updateGroups_heap(1) moveFormation_heap(1) dead_kept_trans by blast
  then show "dead_kept (heap g) (heap (playing_advance now g))"
    unfolding playing_advance_def using bulletsHitAliens_heap(1) dead_kept_trans by blast
qed

lemma playing_outcome_heap:
  "dead_kept (heap g) (heap (playing_outcome g))"
  "nextAddr (playing_outcome g) = nextAddr g"
proof -
  show "nextAddr (playing_outcome g) = nextAddr g"
    by (simp add: playing_outcome_def Let_def)
  let ?g1 = "g\<lparr>heap := fst (playerHit g (enemyBulletGroup g) True)\<rparr>"
  have 1: "dead_kept (heap g) (fst (playerHit g (enemyBulletGroup g) True))"
    by (rule kills_only_dead_kept [OF playerHit_kills_only])
  have "dead_kept (heap ?g1) (fst (playerHit ?g1 grp k))" for grp k
    by (rule kills_only_dead_kept [OF playerHit_kills_only])
  then have 2: "dead_kept (heap g) (fst (playerHit ?g1 grp k))" for grp k
    using 1 dead_kept_trans by (metis (no_types, lifting) game.select_convs(1) game.surjective game.update_convs(1))
  show "dead_kept (heap g) (heap (playing_outcome g))"
    using 1 2 by (simp add: playing_outcome_def Let_def)
qed

lemma stays_dead_refl: "stays_dead g g"
  by (simp add: stays_dead_def)

lemma stays_dead_trans: "stays_dead g1 g2 \<Longrightarrow> stays_dead g2 g3 \<Longrightarrow> stays_dead g1 g3"
  unfolding stays_dead_def by (meson le_trans less_le_trans)

lemma stays_dead_same:
  "nextAddr g' = nextAddr g \<Longrightarrow> dead_kept (heap g) (heap g') \<Longrightarrow> stays_dead g g'"
  by (simp add: stays_dead_def dead_kept_def)

lemma stays_dead_fields:
  "nextAddr g'' = nextAddr g' \<Longrightarrow> heap g'' = heap g' \<Longrightarrow> stays_dead g g' \<Longrightarrow> stays_dead g g''"
  by (simp add: stays_dead_def)

lemma alloc_stays_dead: "stays_dead g (snd (alloc s g))"
  by (simp add: stays_dead_def alloc_def)

lemma add_alien_stays_dead: "stays_dead g (add_alien row col now g)"
  by (rule stays_dead_fields [OF _ _ alloc_stays_dead]) (simp_all add: add_alien_def alloc_def)

lemma add_row_stays_dead:
  "stays_dead g (foldl (\<lambda>gb col. add_alien row col now gb) g cls)"
proof (induction cls arbitrary: g)
  case Nil
  then show ?case by (simp add: stays_dead_refl)
next
  case (Cons c cls)
  show ?case using stays_dead_trans [OF add_alien_stays_dead Cons.IH] by simp
qed

lemma populateAliens_stays_dead: "stays_dead g (populateAliens now rws cls g)"
  unfolding populateAliens_def
proof (induction rws arbitrary: g)
  case Nil
  then show ?case by (simp add: stays_dead_refl)
next
  case (Cons r rws)
  show ?case using stays_dead_trans [OF add_row_stays_dead Cons.IH] by simp
qed

lemma startGameLoop_stays_dead: "stays_dead g (startGameLoop now g)"
proof -
  let ?g2 = "(snd (alloc new_Player g))\<lparr>playerGroup := [fst (alloc new_Player g)],
      bulletGroup := [], enemyBulletGroup := [], alienGroup := []\<rparr>"
  have "stays_dead g ?g2"
    by (rule stays_dead_fields [OF _ _ alloc_stays_dead]) simp_all
  then have "stays_dead g (populateAliens now [0..<nat (3 + (currentLevel ?g2 - 1))] [0..<10] ?g2)"
    using populateAliens_stays_dead stays_dead_trans by blast
  then show ?thesis
    by (rule stays_dead_fields [rotated 2]) (simp_all add: startGameLoop_def Let_def case_prod_beta)
qed

lemma playing_shoot_stays_dead: "stays_dead g (playing_shoot now g)"
proof -
  have "stays_dead g ((snd (alloc s g))\<lparr>bulletGroup := bg, lastShotTime := t\<rparr>)" for s bg t
    by (rule stays_dead_fields [OF _ _ alloc_stays_dead]) simp_all
  then show ?thesis
    by (simp add: playing_shoot_def Let_def case_prod_beta stays_dead_refl split: list.splits)
qed

lemma updatePlaying_stays_dead: "stays_dead g (updatePlaying now g)"
proof -
  let ?g1 = "playing_shoot now g"
  have s: "stays_dead g ?g1" by (rule playing_shoot_stays_dead)
  have a: "stays_dead ?g1 (playing_advance now ?g1)"
    by (rule stays_dead_same) (rule playing_advance_heap)+
  have o: "stays_dead (playing_advance now ?g1) (playing_outcome (playing_advance now ?g1))"
    by (rule stays_dead_same) (rule playing_outcome_heap)+
  have full: "stays_dead g (playing_outcome (playing_advance now ?g1))"
    using s a o stays_dead_trans by blast
  have r: "stays_dead g (?g1\<lparr>pressedKeys := ks, currentLevel := 1, gameState := MENU,
      alienShootInterval := None\<rparr>)" for ks
    by (rule stays_dead_fields [OF _ _ s]) simp_all
  have q: "stays_dead g (?g1\<lparr>alienShootInterval := None\<rparr>)"
    by (rule stays_dead_fields [OF _ _ s]) simp_all
  show ?thesis using full r q by (simp add: updatePlaying_def Let_def)
qed

lemma gameLoop_stays_dead: "stays_dead g (gameLoop now g)"
proof -
  have sg: "stays_dead g' (startGameLoop now g')" for g' by (rule startGameLoop_stays_dead)
  have m: "stays_dead g (updateMenu now g)"
  proof -
    let ?g0 = "g\<lparr>pressedKeys := (pressedKeys g)(Enter := False), gameState := PLAYING\<rparr>"
    have "stays_dead g (startGameLoop now ?g0)"
      using sg [of ?g0] by (simp add: stays_dead_def)
    then have "stays_dead g (if pressedKeys g Enter then startGameLoop now ?g0 else g)"
      by (simp add: stays_dead_refl)
    then show ?thesis
      unfolding updateMenu_def Let_def by (auto simp: stays_dead_def)
  qed
  have l: "stays_dead g (updateLevelComplete now g)"
  proof -
    let ?g1 = "g\<lparr>pressedKeys := (pressedKeys g)(Enter := False, Escape := False),
                       currentLevel := currentLevel g + 1, gameState := PLAYING\<rparr>"
    have "stays_dead g (startGameLoop now ?g1)"
      using sg [of ?g1] by (simp add: stays_dead_def)
    then show ?thesis
      unfolding updateLevelComplete_def Let_def by (auto simp: stays_dead_def)
  qed
  have i: "stays_dead g (updateInstructions g)"
    by (simp add: updateInstructions_def stays_dead_def)
  have v: "stays_dead g (updateVictory g)" "stays_dead g (updateGameOver g)"
    by (simp_all add: updateVictory_def updateGameOver_def stays_dead_def)
  show ?thesis
    using m l i v updatePlaying_stays_dead by (simp add: gameLoop_def split: gameState.splits)
qed

lemma alienShoot_stays_dead: "stays_dead g (alienShoot i g)"
proof -
  have "stays_dead g ((snd (alloc s g))\<lparr>enemyBulletGroup := eg\<rparr>)" for s eg
    by (rule stays_dead_fields [OF _ _ alloc_stays_dead]) simp_all
  then show ?thesis
    by (simp add: alienShoot_def Let_def case_prod_beta stays_dead_refl)
qed

lemma dispatch_stays_dead: "stays_dead g (dispatch g e)"
  using gameLoop_stays_dead alienShoot_stays_dead
  by (cases e) (simp_all add: stays_dead_def)

lemma run_stays_dead: "stays_dead g (run g es)"
  unfolding run_def
proof (induction es arbitrary: g)
  case Nil
  then show ?case by (simp add: stays_dead_refl)
next
  case (Cons e es)
  show ?case using stays_dead_trans [OF dispatch_stays_dead Cons.IH] by simp
qed

lemma constructors_alive:
  "isAlive (Sprite k)" "isAlive new_Player" "isAlive (new_Bullet px py)"
  "isAlive (new_Alien px py now)" "isAlive (new_EnemyBullet px py)"
  by (simp_all add: Sprite_def new_Player_def new_Bullet_def new_Alien_def new_EnemyBullet_def
      setRect_def)

lemma updates_never_revive:
  "isAlive (Player_update keys s) = isAlive s"
  "isAlive (Alien_update mr m now s) = isAlive s"
  "isAlive (Bullet_update s) \<longrightarrow> isAlive s"
  "isAlive (EnemyBullet_update s) \<longrightarrow> isAlive s"
  by (simp_all add: Player_update_def Alien_update_def Bullet_update_def EnemyBullet_update_def
      Let_def kill_def)

text \<open>
  Claim C10. Every constructor makes a live sprite; \<open>kill\<close> makes it dead; no update
  method turns a dead sprite alive; and through any sequence of key events, frames and
  timer callbacks a sprite object that is dead stays dead.
\<close>

theorem isAlive_monotone:
  "isAlive (Sprite k) \<and> isAlive new_Player \<and> isAlive (new_Bullet px py)
   \<and> isAlive (new_Alien px py now) \<and> isAlive (new_EnemyBullet px py)
   \<and> \<not> isAlive (kill s)
   \<and> isAlive (Player_update keys s) = isAlive s
   \<and> isAlive (Alien_update mr m now s) = isAlive s
   \<and> (isAlive (Bullet_update s) \<longrightarrow> isAlive s)
   \<and> (isAlive (EnemyBullet_update s) \<longrightarrow> isAlive s)
   \<and> stays_dead g (run g es)"
proof -
  have "\<not> isAlive (kill s)" by (simp add: kill_def)
  then show ?thesis
    by (intro conjI constructors_alive updates_never_revive run_stays_dead)
qed

theorem isAlive_monotone_witness:
  "2 < nextAddr last_alien_shot \<and> \<not> isAlive (heap last_alien_shot 2)
   \<and> \<not> isAlive (heap (run last_alien_shot [Frame 0, KeyDown Space, Frame 600]) 2)
   \<and> \<not> isAlive (EnemyBullet_update (kill (new_EnemyBullet 0 0)))
   \<and> \<not> isAlive (Bullet_update (kill (new_Bullet 0 0)))"
proof -
  note T = isAlive_monotone [of Player 0 0 0 "kill (new_EnemyBullet 0 0)" "\<lambda>k. False" True 1
        last_alien_shot "[Frame 0, KeyDown Space, Frame 600]"]
  note U = isAlive_monotone [of Player 0 0 0 "kill (new_Bullet 0 0)" "\<lambda>k. False" True 1
        last_alien_shot "[Frame 0, KeyDown Space, Frame 600]"]
  have a: "2 < nextAddr last_alien_shot" and b: "\<not> isAlive (heap last_alien_shot 2)"
    by code_simp+
  have k: "\<not> isAlive (kill (new_EnemyBullet 0 0))" "\<not> isAlive (kill (new_Bullet 0 0))"
    by (simp_all add: kill_def)
  have sd: "stays_dead last_alien_shot (run last_alien_shot [Frame 0, KeyDown Space, Frame 600])"
    using T by (elim conjE)
  have c: "\<not> isAlive (heap (run last_alien_shot [Frame 0, KeyDown Space, Frame 600]) 2)"
    using sd a b unfolding stays_dead_def by (elim conjE allE [of _ 2]) simp
  have e: "\<not> isAlive (EnemyBullet_update (kill (new_EnemyBullet 0 0)))"
    using T k(1) by (elim conjE) simp
  have f: "\<not> isAlive (Bullet_update (kill (new_Bullet 0 0)))"
    using U k(2) by (elim conjE) simp
  show ?thesis using a b c e f by (intro conjI)
qed

section \<open>The end of a frame in play\<close>

lemma playing_shoot_fields:
  "pressedKeys (playing_shoot now g) = pressedKeys g"
  "gameState (playing_shoot now g) = gameState g"
  "currentLevel (playing_shoot now g) = currentLevel g"
  "movingRight (playing_shoot now g) = movingRight g"
  "playerGroup (playing_shoot now g) = playerGroup g"
  "enemyBulletGroup (playing_shoot now g) = enemyBulletGroup g"
  "alienGroup (playing_shoot now g) = alienGroup g"
  "initialAlienCount (playing_shoot now g) = initialAlienCount g"
  by (simp_all add: playing_shoot_def Let_def case_prod_beta alloc_def split: list.splits)

lemma updatePlaying_continues:
  "\<not> pressedKeys g KeyR \<Longrightarrow> \<not> pressedKeys g KeyQ \<Longrightarrow>
   updatePlaying now g = playing_outcome (playing_advance now (playing_shoot now g))"
  by (simp add: updatePlaying_def Let_def playing_shoot_fields)

lemma spriteCollide_visit_collided:
  "snd st \<noteq> [] \<Longrightarrow> snd (foldl (spriteCollide_visit sp k) st grp) \<noteq> []"
  by (induction grp arbitrary: st) (simp_all add: spriteCollide_visit_def Let_def)

lemma spriteCollide_visit_hit:
  assumes "b \<in> set grp" and "isAlive (fst st b)"
    and "checkCollision (rect (fst st sp)) (rect (fst st b))"
  shows "snd (foldl (spriteCollide_visit sp True) st grp) \<noteq> []
     \<and> \<not> isAlive (fst (foldl (spriteCollide_visit sp True) st grp) b)"
  using assms
proof (induction grp arbitrary: st)
  case Nil
  then show ?case by simp
next
  case (Cons s grp)
  let ?st' = "spriteCollide_visit sp True st s"
  have ko: "kills_only (fst st) (fst ?st')" by (rule spriteCollide_visit_kills_only)
  show ?case
  proof (cases "s = b")
    case True
    have dead: "\<not> isAlive (fst ?st' b)" and got: "snd ?st' \<noteq> []"
      using Cons.prems True by (simp_all add: spriteCollide_visit_def Let_def kill_def)
    have "\<not> isAlive (fst (foldl (spriteCollide_visit sp True) ?st' grp) b)"
      using kills_only_dead [OF foldl_spriteCollide_visit_kills_only dead] .
    moreover have "snd (foldl (spriteCollide_visit sp True) ?st' grp) \<noteq> []"
      using got by (rule spriteCollide_visit_collided)
    ultimately show ?thesis by simp
  next
    case False
    then have mem: "b \<in> set grp" using Cons.prems by simp
    have alive: "isAlive (fst ?st' b)"
      using Cons.prems False by (simp add: spriteCollide_visit_def Let_def)
    have col: "checkCollision (rect (fst ?st' sp)) (rect (fst ?st' b))"
      using Cons.prems by (simp add: kills_only_rect [OF ko])
    show ?thesis using Cons.IH [OF mem alive col] by simp
  qed
qed

lemma spriteCollide_hit:
  assumes "isAlive (h sp)" and "b \<in> set grp" and "isAlive (h b)"
    and "checkCollision (rect (h sp)) (rect (h b))"
  shows "snd (spriteCollide h sp grp True) \<noteq> []"
    and "\<not> isAlive (fst (spriteCollide h sp grp True) b)"
  using spriteCollide_visit_hit [of b grp "(h, [])" sp] assms
  by (simp_all add: spriteCollide_def)

lemma spriteCollide_visit_outside:
  "a \<notin> set grp \<Longrightarrow> fst (foldl (spriteCollide_visit sp k) st grp) a = fst st a"
  by (induction grp arbitrary: st) (simp_all add: spriteCollide_visit_def Let_def)

lemma spriteCollide_outside:
  "a \<notin> set grp \<Longrightarrow> fst (spriteCollide h sp grp k) a = h a"
  by (simp add: spriteCollide_def spriteCollide_visit_outside)

lemma spriteCollide_empty: "spriteCollide h sp [] k = (h, [])"
  by (simp add: spriteCollide_def)

lemma playerHit_empty: "playerHit g [] k = (heap g, False)"
  by (simp add: playerHit_def spriteCollide_empty split: list.splits)

text \<open>
  Claim C3, as the code has it. In a frame of the PLAYING state with neither the restart
  nor the quit key held, let the collision checks be reached with the live player's box
  overlapping the box of a live enemy bullet. Then the frame ends in GAME_OVER with the
  enemy-fire timer cleared, right after that check: the state is the one the check was
  reached in, but for the enemy bullets killed by \<open>spriteCollide\<close>. The bullet is dead
  (and still in its group's array); the player stays in its group, and alive.
\<close>

theorem enemy_bullet_hit_is_game_over:
  assumes "gameState g = PLAYING" and "\<not> pressedKeys g KeyR" and "\<not> pressedKeys g KeyQ"
    and "g1 = playing_advance now (playing_shoot now g)"
    and "playerGroup g1 = p # ps" and "isAlive (heap g1 p)"
    and "b \<in> set (enemyBulletGroup g1)" and "isAlive (heap g1 b)"
    and "checkCollision (rect (heap g1 p)) (rect (heap g1 b))"
  shows "gameLoop now g =
           g1\<lparr>heap := fst (spriteCollide (heap g1) p (enemyBulletGroup g1) True),
              alienShootInterval := None, gameState := GAME_OVER\<rparr>
     \<and> gameState (gameLoop now g) = GAME_OVER
     \<and> \<not> isAlive (heap (gameLoop now g) b)
     \<and> b \<in> set (enemyBulletGroup (gameLoop now g))
     \<and> playerGroup (gameLoop now g) = p # ps
     \<and> (p \<notin> set (enemyBulletGroup g1) \<longrightarrow> isAlive (heap (gameLoop now g) p))"
proof -
  let ?h = "fst (spriteCollide (heap g1) p (enemyBulletGroup g1) True)"
  have hit: "snd (spriteCollide (heap g1) p (enemyBulletGroup g1) True) \<noteq> []"
    and dead: "\<not> isAlive (?h b)"
    using spriteCollide_hit [OF assms(6) assms(7) assms(8) assms(9)] by simp_all
  have ph: "playerHit g1 (enemyBulletGroup g1) True = (?h, True)"
    using hit assms(5) by (simp add: playerHit_def case_prod_beta)
  have "gameLoop now g = playing_outcome g1"
    using assms(1-4) by (simp add: gameLoop_def updatePlaying_continues)
  also have "\<dots> = g1\<lparr>heap := ?h, alienShootInterval := None, gameState := GAME_OVER\<rparr>"
    by (simp add: playing_outcome_def Let_def ph)
  finally have eq: "gameLoop now g
      = g1\<lparr>heap := ?h, alienShootInterval := None, gameState := GAME_OVER\<rparr>" .
  have "p \<notin> set (enemyBulletGroup g1) \<longrightarrow> isAlive (?h p)"
    using assms(6) by (simp add: spriteCollide_outside)
  then show ?thesis using eq dead assms(5,7) by simp
qed

text \<open>
  The enemy bullet of the sample session moves onto the player: the game is over, the
  bullet is dead, the player is neither dead nor out of its group.
\<close>

theorem player_survives_enemy_bullet:
  "gameState sample_session = PLAYING
   \<and> checkCollision
        (rect (heap (playing_advance 0 (playing_shoot 0 sample_session)) 0))
        (rect (heap (playing_advance 0 (playing_shoot 0 sample_session)) 1))
   \<and> gameState (gameLoop 0 sample_session) = GAME_OVER
   \<and> \<not> isAlive (heap (gameLoop 0 sample_session) 1)
   \<and> isAlive (heap (gameLoop 0 sample_session) 0)
   \<and> playerGroup (gameLoop 0 sample_session) = [0]"
  by code_simp

theorem enemy_bullet_hit_is_game_over_witness:
  "gameState (gameLoop 0 sample_session) = GAME_OVER
   \<and> \<not> isAlive (heap (gameLoop 0 sample_session) 1)
   \<and> 1 \<in> set (enemyBulletGroup (gameLoop 0 sample_session))
   \<and> playerGroup (gameLoop 0 sample_session) = [0]
   \<and> isAlive (heap (gameLoop 0 sample_session) 0)"
proof -
  define g1 where "g1 = playing_advance 0 (playing_shoot 0 sample_session)"
  have a: "gameState sample_session = PLAYING" "\<not> pressedKeys sample_session KeyR"
    "\<not> pressedKeys sample_session KeyQ"
    by code_simp+
  have b: "playerGroup g1 = 0 # []" "isAlive (heap g1 0)" "1 \<in> set (enemyBulletGroup g1)"
    "isAlive (heap g1 1)" "checkCollision (rect (heap g1 0)) (rect (heap g1 1))"
    "0 \<notin> set (enemyBulletGroup g1)"
    unfolding g1_def by code_simp+
  note T = enemy_bullet_hit_is_game_over [OF a g1_def b(1-5)]
  show ?thesis
    using T [THEN conjunct2] b(6) by simp
qed

text \<open>
  Claim C8, as the code has it. A session created for level \<open>N\<close> has
  \<open>(3 + (N - 1)) * 10\<close> aliens, 30 at level 1, and that number is
  \<open>initialAlienCount\<close>. In a frame of the PLAYING state with neither the restart nor the
  quit key held, if the alien array is empty when the collision checks are reached, the
  frame ends in LEVEL_COMPLETE unless an enemy bullet hits the player in that frame, and
  then it ends in GAME_OVER.
\<close>

theorem level_creation_and_completion:
  "length (alienGroup (startGameLoop now s)) = nat (3 + (currentLevel s - 1)) * 10
   \<and> initialAlienCount (startGameLoop now s) = length (alienGroup (startGameLoop now s))
   \<and> (1 \<le> currentLevel s \<longrightarrow>
        int (initialAlienCount (startGameLoop now s)) = (3 + (currentLevel s - 1)) * 10)
   \<and> (currentLevel s = 1 \<longrightarrow> length (alienGroup (startGameLoop now s)) = 30)
   \<and> (gameState g = PLAYING \<and> \<not> pressedKeys g KeyR \<and> \<not> pressedKeys g KeyQ
        \<and> alienGroup (playing_advance now (playing_shoot now g)) = []
      \<longrightarrow> gameState (gameLoop now g) =
            (if snd (playerHit (playing_advance now (playing_shoot now g))
                       (enemyBulletGroup (playing_advance now (playing_shoot now g))) True)
             then GAME_OVER else LEVEL_COMPLETE))"
proof -
  have "gameState (gameLoop now g) =
            (if snd (playerHit (playing_advance now (playing_shoot now g))
                       (enemyBulletGroup (playing_advance now (playing_shoot now g))) True)
             then GAME_OVER else LEVEL_COMPLETE)"
    if "gameState g = PLAYING" "\<not> pressedKeys g KeyR" "\<not> pressedKeys g KeyQ"
      "alienGroup (playing_advance now (playing_shoot now g)) = []"
    using that
    by (simp add: gameLoop_def updatePlaying_continues playing_outcome_def Let_def playerHit_empty)
  then show ?thesis by (simp add: startGameLoop_fields)
qed

text \<open>
  The last alien has been shot; the next frame empties the alien group, and in the same
  frame the enemy bullet reaches the player: game over, not level complete.
\<close>

theorem last_alien_pruned_but_game_over:
  "gameState last_alien_shot = PLAYING
   \<and> alienGroup last_alien_shot = [2]
   \<and> alienGroup (gameLoop 0 last_alien_shot) = []
   \<and> gameState (gameLoop 0 last_alien_shot) = GAME_OVER"
  by code_simp

theorem level_creation_and_completion_witness:
  "length (alienGroup (startGameLoop 0 initial_game)) = 30
   \<and> initialAlienCount (startGameLoop 0 initial_game) = 30
   \<and> gameState (gameLoop 0 (last_alien_shot\<lparr>enemyBulletGroup := []\<rparr>)) = LEVEL_COMPLETE
   \<and> gameState (gameLoop 0 last_alien_shot) = GAME_OVER"
proof -
  have l: "1 \<le> currentLevel initial_game" "currentLevel initial_game = 1"
    by (simp_all add: initial_game_def)
  have a1: "gameState (last_alien_shot\<lparr>enemyBulletGroup := []\<rparr>) = PLAYING"
    "\<not> pressedKeys (last_alien_shot\<lparr>enemyBulletGroup := []\<rparr>) KeyR"
    "\<not> pressedKeys (last_alien_shot\<lparr>enemyBulletGroup := []\<rparr>) KeyQ"
    "alienGroup (playing_advance 0 (playing_shoot 0 (last_alien_shot\<lparr>enemyBulletGroup := []\<rparr>))) = []"
    by code_simp+
  have a2: "gameState last_alien_shot = PLAYING" "\<not> pressedKeys last_alien_shot KeyR"
    "\<not> pressedKeys last_alien_shot KeyQ"
    "alienGroup (playing_advance 0 (playing_shoot 0 last_alien_shot)) = []"
    by code_simp+
  have n: "\<not> snd (playerHit (playing_advance 0 (playing_shoot 0 (last_alien_shot\<lparr>enemyBulletGroup := []\<rparr>)))
             (enemyBulletGroup (playing_advance 0 (playing_shoot 0 (last_alien_shot\<lparr>enemyBulletGroup := []\<rparr>)))) True)"
    by code_simp
  have h: "snd (playerHit (playing_advance 0 (playing_shoot 0 last_alien_shot))
             (enemyBulletGroup (playing_advance 0 (playing_shoot 0 last_alien_shot))) True)"
    by code_simp
  show ?thesis
    using level_creation_and_completion [of 0 initial_game "last_alien_shot\<lparr>enemyBulletGroup := []\<rparr>"]
      level_creation_and_completion [of 0 initial_game last_alien_shot]
      l a1 a2 n h
    by simp
qed

section \<open>The formation at the edge of the screen\<close>

lemma edgeReached_iff:
  "edgeReached mr h grp \<longleftrightarrow>
     (\<exists>a\<in>set grp. (mr \<and> WIDTH \<le> jadd (x (rect (h a))) (width (rect (h a))))
                    \<or> (\<not> mr \<and> x (rect (h a)) \<le> 0))"
  by (induction grp) auto

lemma descend_Cons:
  "descend d h (a # as) =
     descend d (h(a := (h a)\<lparr>rect := (rect (h a))\<lparr>y := jadd (y (rect (h a))) d\<rparr>\<rparr>)) as"
  by (simp add: descend_def)

lemma descend_outside: "a \<notin> set grp \<Longrightarrow> descend d h grp a = h a"
proof (induction grp arbitrary: h)
  case Nil
  then show ?case by (simp add: descend_def)
next
  case (Cons b bs)
  then show ?case by (simp add: descend_Cons)
qed

lemma descend_inside:
  "distinct grp \<Longrightarrow> a \<in> set grp \<Longrightarrow>
   descend d h grp a = (h a)\<lparr>rect := (rect (h a))\<lparr>y := jadd (y (rect (h a))) d\<rparr>\<rparr>"
proof (induction grp arbitrary: h)
  case Nil
  then show ?case by simp
next
  case (Cons b bs)
  show ?case
  proof (cases "a = b")
    case True
    then have "a \<notin> set bs" using Cons.prems by simp
    then show ?thesis using True by (simp add: descend_Cons descend_outside)
  next
    case False
    then have "a \<in> set bs" "distinct bs" using Cons.prems by simp_all
    then show ?thesis using False Cons.IH by (simp add: descend_Cons)
  qed
qed

lemma Alien_update_y: "y (rect (Alien_update mr m now s)) = y (rect s)"
  by (simp add: Alien_update_def Let_def)

lemma SpriteGroup_update_Alien_y:
  "y (rect (fst (SpriteGroup_update (Alien_update mr m now) h grp) a)) = y (rect (h a))"
proof (induction grp arbitrary: h)
  case Nil
  then show ?case by simp
next
  case (Cons b bs)
  show ?case
  proof (cases "isAlive (h b)")
    case True
    let ?h' = "h(b := Alien_update mr m now (h b))"
    have "fst (SpriteGroup_update (Alien_update mr m now) h (b # bs)) a
        = fst (SpriteGroup_update (Alien_update mr m now) ?h' bs) a"
      using True by (simp only: SpriteGroup_update_Cons if_True)
    moreover have "y (rect (fst (SpriteGroup_update (Alien_update mr m now) ?h' bs) a))
        = y (rect (?h' a))" by (rule Cons.IH)
    moreover have "y (rect (?h' a)) = y (rect (h a))" by (simp add: Alien_update_y)
    ultimately show ?thesis by simp
  next
    case False
    have "fst (SpriteGroup_update (Alien_update mr m now) h (b # bs)) a
        = fst (SpriteGroup_update (Alien_update mr m now) h bs) a"
      using False by (simp only: SpriteGroup_update_Cons if_False)
    then show ?thesis using Cons.IH by simp
  qed
qed

lemma playing_shoot_heap:
  "a < nextAddr g \<Longrightarrow> heap (playing_shoot now g) a = heap g a"
  by (simp add: playing_shoot_def Let_def case_prod_beta alloc_def split: list.splits)

lemma playing_shoot_bullets:
  "set (bulletGroup (playing_shoot now g)) \<subseteq> insert (nextAddr g) (set (bulletGroup g))"
  by (auto simp: playing_shoot_def Let_def case_prod_beta alloc_def split: list.splits)

lemma updateGroups_fields:
  "movingRight (updateGroups g) = movingRight g"
  "currentLevel (updateGroups g) = currentLevel g"
  "alienGroup (updateGroups g) = alienGroup g"
  "initialAlienCount (updateGroups g) = initialAlienCount g"
  by (simp_all add: updateGroups_def Let_def case_prod_beta)

lemma updateGroups_outside:
  assumes "a \<notin> set (playerGroup g)" "a \<notin> set (bulletGroup g)" "a \<notin> set (enemyBulletGroup g)"
  shows "heap (updateGroups g) a = heap g a"
  using assms by (simp add: updateGroups_def Let_def case_prod_beta SpriteGroup_update_outside)

lemma moveFormation_reverses:
  assumes "edgeReached (movingRight g) (heap g) (alienGroup g)"
  shows "movingRight (moveFormation now g) = (\<not> movingRight g)"
  using assms by (simp add: moveFormation_def Let_def case_prod_beta)

lemma moveFormation_descends:
  assumes "edgeReached (movingRight g) (heap g) (alienGroup g)"
    and "distinct (alienGroup g)" and "a \<in> set (alienGroup g)"
  shows "y (rect (heap (moveFormation now g) a))
       = jadd (y (rect (heap g a))) (of_int (10 + currentLevel g * 5))"
  using assms
  by (simp add: moveFormation_def Let_def case_prod_beta SpriteGroup_update_Alien_y descend_inside)

lemma bulletsHitAliens_fields:
  "movingRight (bulletsHitAliens g) = movingRight g"
  "rect (heap (bulletsHitAliens g) a) = rect (heap g a)"
  "alienGroup (bulletsHitAliens g) = alienGroup g"
  by (simp_all add: bulletsHitAliens_def kills_only_rect [OF groupCollide_kills_only])

lemma playing_outcome_fields:
  "movingRight (playing_outcome g) = movingRight g"
  "rect (heap (playing_outcome g) a) = rect (heap g a)"
proof -
  show "movingRight (playing_outcome g) = movingRight g"
    by (simp add: playing_outcome_def Let_def)
  let ?g1 = "g\<lparr>heap := fst (playerHit g (enemyBulletGroup g) True)\<rparr>"
  have 1: "rect (fst (playerHit g (enemyBulletGroup g) True) a) = rect (heap g a)"
    by (rule kills_only_rect [OF playerHit_kills_only])
  have "rect (fst (playerHit ?g1 grp k) a) = rect (heap ?g1 a)" for grp k
    by (rule kills_only_rect [OF playerHit_kills_only])
  then have 2: "rect (fst (playerHit ?g1 grp k) a) = rect (heap g a)" for grp k
    using 1 by simp
  show "rect (heap (playing_outcome g) a) = rect (heap g a)"
    using 1 2 by (simp add: playing_outcome_def Let_def)
qed

text \<open>
  Claim C5, as the code has it. Take a frame of the PLAYING state with neither the restart
  nor the quit key held, in a session whose groups share no sprite. If the formation moves
  rightward and some alien of the group has \<open>x + width \<ge> 800\<close>, or it moves leftward and
  some alien has \<open>x \<le> 0\<close>, then after the frame the direction is reversed and the \<open>y\<close> of
  every alien of the group has grown by \<open>10 + level * 5\<close>: by one binary64 addition,
  which is exact whenever \<open>y\<close> is an integer and the sum is below \<open>2 ^ 53\<close>.
\<close>

theorem formation_reverses_and_descends:
  assumes "gameState g = PLAYING" and "\<not> pressedKeys g KeyR" and "\<not> pressedKeys g KeyQ"
    and "wf_session g"
    and "\<exists>a\<in>set (alienGroup g).
           (movingRight g \<and> WIDTH \<le> jadd (x (rect (heap g a))) (width (rect (heap g a))))
           \<or> (\<not> movingRight g \<and> x (rect (heap g a)) \<le> 0)"
  shows "movingRight (gameLoop now g) = (\<not> movingRight g)
     \<and> (\<forall>a\<in>set (alienGroup g).
          y (rect (heap (gameLoop now g) a))
            = jadd (y (rect (heap g a))) (of_int (10 + currentLevel g * 5)))
     \<and> (\<forall>a\<in>set (alienGroup g). \<forall>n.
          y (rect (heap g a)) = of_int n \<and> \<bar>n + (10 + currentLevel g * 5)\<bar> < 2 ^ 53
          \<longrightarrow> y (rect (heap (gameLoop now g) a)) = of_int n + of_int (10 + currentLevel g * 5))"
proof -
  let ?g0 = "playing_shoot now g"
  let ?gA = "updateGroups ?g0"
  let ?gB = "moveFormation now ?gA"
  let ?d = "10 + currentLevel g * 5"
  have loop: "gameLoop now g = playing_outcome (bulletsHitAliens ?gB)"
    using assms(1-3) by (simp add: gameLoop_def updatePlaying_continues playing_advance_def)
  have dist: "distinct (alienGroup g)" using assms(4) by (simp add: wf_session_def)
  have same: "heap ?gA a = heap g a" if "a \<in> set (alienGroup g)" for a
  proof -
    have lt: "a < nextAddr g" using that assms(4) by (simp add: wf_session_def)
    have np: "a \<notin> set (playerGroup g)" "a \<notin> set (bulletGroup g)"
      "a \<notin> set (enemyBulletGroup g)"
      using that assms(4) by (auto simp: wf_session_def)
    have "a \<notin> set (bulletGroup ?g0)"
      using playing_shoot_bullets [of now g] np(2) lt by auto
    then have "heap ?gA a = heap ?g0 a"
      using np by (intro updateGroups_outside) (simp_all add: playing_shoot_fields)
    then show ?thesis using lt by (simp add: playing_shoot_heap)
  qed
  have aliens: "alienGroup ?gA = alienGroup g" "movingRight ?gA = movingRight g"
    "currentLevel ?gA = currentLevel g"
    by (simp_all add: updateGroups_fields playing_shoot_fields)
  have edge: "edgeReached (movingRight ?gA) (heap ?gA) (alienGroup ?gA)"
    unfolding edgeReached_iff aliens using assms(5) same by auto
  have rev: "movingRight (gameLoop now g) = (\<not> movingRight g)"
    unfolding loop
    by (simp add: playing_outcome_fields bulletsHitAliens_fields
        moveFormation_reverses [OF edge] aliens)
  have down: "y (rect (heap (gameLoop now g) a)) = jadd (y (rect (heap g a))) (of_int ?d)"
    if "a \<in> set (alienGroup g)" for a
  proof -
    have "y (rect (heap (gameLoop now g) a)) = y (rect (heap ?gB a))"
      unfolding loop by (simp add: playing_outcome_fields bulletsHitAliens_fields)
    also have "\<dots> = jadd (y (rect (heap ?gA a))) (of_int (10 + currentLevel ?gA * 5))"
      using edge dist that by (intro moveFormation_descends) (simp_all add: aliens)
    finally show ?thesis using that by (simp add: same aliens)
  qed
  have exact: "y (rect (heap (gameLoop now g) a)) = of_int n + of_int ?d"
    if "a \<in> set (alienGroup g)" "y (rect (heap g a)) = of_int n" "\<bar>n + ?d\<bar> < 2 ^ 53" for a n
  proof -
    have "jadd (of_int n) (of_int ?d) = fl (of_int (n + ?d))" by (simp add: jadd_def)
    also have "\<dots> = of_int (n + ?d)" using that(3) by (rule fl_of_int)
    finally show ?thesis using down [OF that(1)] that(2) by simp
  qed
  show ?thesis using rev down exact by blast
qed

text \<open>
  With the restart key held the frame returns before the formation is looked at: the alien
  at the right edge stays where it is and the direction stays rightward.
\<close>

theorem restart_key_stops_reversal:
  "gameState edge_session_restart = PLAYING
   \<and> movingRight edge_session_restart
   \<and> alienGroup edge_session_restart = [1]
   \<and> WIDTH \<le> jadd (x (rect (heap edge_session_restart 1)))
                    (width (rect (heap edge_session_restart 1)))
   \<and> movingRight (gameLoop 0 edge_session_restart)
   \<and> y (rect (heap (gameLoop 0 edge_session_restart) 1))
       = y (rect (heap edge_session_restart 1))"
  by code_simp

theorem formation_reverses_and_descends_witness:
  "wf_session edge_session
   \<and> movingRight edge_session
   \<and> \<not> movingRight (gameLoop 0 edge_session)
   \<and> y (rect (heap edge_session 1)) = 30
   \<and> y (rect (heap (gameLoop 0 edge_session) 1)) = 45"
proof -
  have a: "gameState edge_session = PLAYING" "\<not> pressedKeys edge_session KeyR"
    "\<not> pressedKeys edge_session KeyQ" "wf_session edge_session"
    by code_simp+
  have b: "movingRight edge_session" "alienGroup edge_session = [1]"
    "WIDTH \<le> jadd (x (rect (heap edge_session 1))) (width (rect (heap edge_session 1)))"
    "y (rect (heap edge_session 1)) = of_int 30" "currentLevel edge_session = 1"
    by code_simp+
  have t: "\<exists>a\<in>set (alienGroup edge_session).
           (movingRight edge_session
            \<and> WIDTH \<le> jadd (x (rect (heap edge_session a))) (width (rect (heap edge_session a))))
           \<or> (\<not> movingRight edge_session \<and> x (rect (heap edge_session a)) \<le> 0)"
    using b by simp
  note T = formation_reverses_and_descends [OF a t, of 0]
  have "y (rect (heap (gameLoop 0 edge_session) 1)) = of_int 30 + of_int (10 + currentLevel edge_session * 5)"
    using T [THEN conjunct2, THEN conjunct2] b by simp
  then show ?thesis using T [THEN conjunct1] a b by simp
qed

section \<open>No sprite is shared\<close>

text \<open>Every state the game can reach from its start, by key events, frames and timer
  callbacks, is a well-formed session: the hypothesis made on the groups in the theorems
  on update passes and on the formation holds in the running game.\<close>

lemma wf_session_iff:
  "wf_session g \<longleftrightarrow>
     distinct (playerGroup g) \<and> distinct (bulletGroup g) \<and> distinct (enemyBulletGroup g)
     \<and> distinct (alienGroup g)
     \<and> set (playerGroup g) \<inter> set (bulletGroup g) = {}
     \<and> set (playerGroup g) \<inter> set (enemyBulletGroup g) = {}
     \<and> set (playerGroup g) \<inter> set (alienGroup g) = {}
     \<and> set (bulletGroup g) \<inter> set (enemyBulletGroup g) = {}
     \<and> set (bulletGroup g) \<inter> set (alienGroup g) = {}
     \<and> set (enemyBulletGroup g) \<inter> set (alienGroup g) = {}
     \<and> (\<forall>a\<in>set (playerGroup g) \<union> set (bulletGroup g) \<union> set (enemyBulletGroup g)
            \<union> set (alienGroup g). a < nextAddr g)"
  unfolding wf_session_def by (auto simp: Int_Un_distrib)

lemma wf_session_shrink:
  assumes "wf_session g" and "nextAddr g \<le> nextAddr g'"
    and "distinct (playerGroup g')" "set (playerGroup g') \<subseteq> set (playerGroup g)"
    and "distinct (bulletGroup g')" "set (bulletGroup g') \<subseteq> set (bulletGroup g)"
    and "distinct (enemyBulletGroup g')" "set (enemyBulletGroup g') \<subseteq> set (enemyBulletGroup g)"
    and "distinct (alienGroup g')" "set (alienGroup g') \<subseteq> set (alienGroup g)"
  shows "wf_session g'"
proof -
  have old: "\<forall>a\<in>set (playerGroup g) \<union> set (bulletGroup g) \<union> set (enemyBulletGroup g)
            \<union> set (alienGroup g). a < nextAddr g"
    using assms(1) by (simp add: wf_session_iff)
  have "\<forall>a\<in>set (playerGroup g') \<union> set (bulletGroup g') \<union> set (enemyBulletGroup g')
            \<union> set (alienGroup g'). a < nextAddr g'"
  proof
    fix a
    assume "a \<in> set (playerGroup g') \<union> set (bulletGroup g') \<union> set (enemyBulletGroup g')
            \<union> set (alienGroup g')"
    then have "a \<in> set (playerGroup g) \<union> set (bulletGroup g) \<union> set (enemyBulletGroup g)
            \<union> set (alienGroup g)" using assms(4,6,8,10) by blast
    then have "a < nextAddr g" using old by blast
    then show "a < nextAddr g'" using assms(2) by simp
  qed
  moreover have dj: "set (playerGroup g) \<inter> set (bulletGroup g) = {}"
    "set (playerGroup g) \<inter> set (enemyBulletGroup g) = {}"
    "set (playerGroup g) \<inter> set (alienGroup g) = {}"
    "set (bulletGroup g) \<inter> set (enemyBulletGroup g) = {}"
    "set (bulletGroup g) \<inter> set (alienGroup g) = {}"
    "set (enemyBulletGroup g) \<inter> set (alienGroup g) = {}"
    using assms(1) by (simp_all add: wf_session_iff)
  moreover have "set (playerGroup g') \<inter> set (bulletGroup g') = {}"
    using dj(1) assms(4,6) by blast
  moreover have "set (playerGroup g') \<inter> set (enemyBulletGroup g') = {}"
    using dj(2) assms(4,8) by blast
  moreover have "set (playerGroup g') \<inter> set (alienGroup g') = {}"
    using dj(3) assms(4,10) by blast
  moreover have "set (bulletGroup g') \<inter> set (enemyBulletGroup g') = {}"
    using dj(4) assms(6,8) by blast
  moreover have "set (bulletGroup g') \<inter> set (alienGroup g') = {}"
    using dj(5) assms(6,10) by blast
  moreover have "set (enemyBulletGroup g') \<inter> set (alienGroup g') = {}"
    using dj(6) assms(8,10) by blast
  ultimately show ?thesis
    unfolding wf_session_iff [of g'] using assms(3,5,7,9) by simp
qed

lemma wf_session_same_groups:
  assumes "wf_session g" and "nextAddr g \<le> nextAddr g'"
    and "playerGroup g' = playerGroup g" "bulletGroup g' = bulletGroup g"
    and "enemyBulletGroup g' = enemyBulletGroup g" "alienGroup g' = alienGroup g"
  shows "wf_session g'"
proof -
  have d: "distinct (playerGroup g)" "distinct (bulletGroup g)" "distinct (enemyBulletGroup g)"
    "distinct (alienGroup g)"
    using assms(1) by (simp_all add: wf_session_iff)
  show ?thesis
    by (rule wf_session_shrink [OF assms(1,2)]) (simp_all add: assms(3-6) d)
qed

lemma wf_session_fresh:
  assumes "wf_session g"
  shows "nextAddr g \<notin> set (playerGroup g) \<union> set (bulletGroup g) \<union> set (enemyBulletGroup g)
            \<union> set (alienGroup g)"
proof
  assume "nextAddr g \<in> set (playerGroup g) \<union> set (bulletGroup g) \<union> set (enemyBulletGroup g)
            \<union> set (alienGroup g)"
  then have "nextAddr g < nextAddr g" using assms unfolding wf_session_iff by blast
  then show False by simp
qed

lemma updateGroups_groups:
  "playerGroup (updateGroups g)
     = snd (SpriteGroup_update (Player_update (pressedKeys g)) (heap g) (playerGroup g))"
  "bulletGroup (updateGroups g)
     = snd (SpriteGroup_update Bullet_update
             (fst (SpriteGroup_update (Player_update (pressedKeys g)) (heap g) (playerGroup g)))
             (bulletGroup g))"
  "enemyBulletGroup (updateGroups g)
     = snd (SpriteGroup_update EnemyBullet_update
             (fst (SpriteGroup_update Bullet_update
                (fst (SpriteGroup_update (Player_update (pressedKeys g)) (heap g) (playerGroup g)))
                (bulletGroup g)))
             (enemyBulletGroup g))"
  by (simp_all add: updateGroups_def Let_def case_prod_beta)

lemma wf_session_updateGroups:
  assumes "wf_session g"
  shows "wf_session (updateGroups g)"
proof -
  have d: "distinct (playerGroup g)" "distinct (bulletGroup g)" "distinct (enemyBulletGroup g)"
    "distinct (alienGroup g)"
    using assms by (simp_all add: wf_session_iff)
  show ?thesis
  proof (rule wf_session_shrink [OF assms])
    show "nextAddr g \<le> nextAddr (updateGroups g)" by (simp add: updateGroups_heap)
  qed (simp_all only: updateGroups_groups updateGroups_fields SpriteGroup_update_subset
      SpriteGroup_update_distinct [OF d(1)] SpriteGroup_update_distinct [OF d(2)]
      SpriteGroup_update_distinct [OF d(3)] d subset_refl)
qed

lemma moveFormation_groups:
  "playerGroup (moveFormation now g) = playerGroup g"
  "bulletGroup (moveFormation now g) = bulletGroup g"
  "enemyBulletGroup (moveFormation now g) = enemyBulletGroup g"
  "\<exists>f h. alienGroup (moveFormation now g) = snd (SpriteGroup_update f h (alienGroup g))"
proof -
  show "playerGroup (moveFormation now g) = playerGroup g"
    "bulletGroup (moveFormation now g) = bulletGroup g"
    "enemyBulletGroup (moveFormation now g) = enemyBulletGroup g"
    by (simp_all add: moveFormation_def Let_def case_prod_beta)
  have "alienGroup (moveFormation now g)
      = snd (SpriteGroup_update
              (Alien_update (\<not> movingRight g)
                 (speedMultiplier (initialAlienCount g) (length (alienGroup g))) now)
              (descend (of_int (10 + currentLevel g * 5)) (heap g) (alienGroup g)) (alienGroup g))
    \<or> alienGroup (moveFormation now g)
      = snd (SpriteGroup_update
              (Alien_update (movingRight g)
                 (speedMultiplier (initialAlienCount g) (length (alienGroup g))) now)
              (heap g) (alienGroup g))"
    by (simp add: moveFormation_def Let_def case_prod_beta)
  then show "\<exists>f h. alienGroup (moveFormation now g) = snd (SpriteGroup_update f h (alienGroup g))"
    by blast
qed

lemma wf_session_moveFormation:
  assumes "wf_session g"
  shows "wf_session (moveFormation now g)"
proof -
  have d: "distinct (playerGroup g)" "distinct (bulletGroup g)" "distinct (enemyBulletGroup g)"
    "distinct (alienGroup g)"
    using assms by (simp_all add: wf_session_iff)
  obtain f h where a: "alienGroup (moveFormation now g) = snd (SpriteGroup_update f h (alienGroup g))"
    using moveFormation_groups(4) by blast
  show ?thesis
  proof (rule wf_session_shrink [OF assms])
    show "nextAddr g \<le> nextAddr (moveFormation now g)" by (simp add: moveFormation_heap)
    show "distinct (alienGroup (moveFormation now g))"
      unfolding a by (rule SpriteGroup_update_distinct [OF d(4)])
    show "set (alienGroup (moveFormation now g)) \<subseteq> set (alienGroup g)"
      unfolding a by (rule SpriteGroup_update_subset)
  qed (simp_all only: moveFormation_groups(1-3) d subset_refl)
qed

lemma wf_session_playing_advance:
  assumes "wf_session g"
  shows "wf_session (playing_advance now g)"
proof -
  have "wf_session (moveFormation now (updateGroups g))"
    by (rule wf_session_moveFormation [OF wf_session_updateGroups [OF assms]])
  then show ?thesis
    unfolding playing_advance_def
    by (rule wf_session_same_groups) (simp_all add: bulletsHitAliens_def)
qed

lemma wf_session_playing_outcome:
  assumes "wf_session g"
  shows "wf_session (playing_outcome g)"
  by (rule wf_session_same_groups [OF assms]) (simp_all add: playing_outcome_def Let_def)

lemma wf_session_new_bullet:
  assumes "wf_session g"
  shows "wf_session (g\<lparr>heap := h, nextAddr := Suc (nextAddr g),
      bulletGroup := bulletGroup g @ [nextAddr g], lastShotTime := t\<rparr>)"
  using assms wf_session_fresh [OF assms]
  unfolding wf_session_iff by (auto simp: less_Suc_eq)

lemma wf_session_new_enemy_bullet:
  assumes "wf_session g"
  shows "wf_session (g\<lparr>heap := h, nextAddr := Suc (nextAddr g),
      enemyBulletGroup := enemyBulletGroup g @ [nextAddr g]\<rparr>)"
  using assms wf_session_fresh [OF assms]
  unfolding wf_session_iff by (auto simp: less_Suc_eq)

lemma wf_session_playing_shoot:
  assumes "wf_session g"
  shows "wf_session (playing_shoot now g)"
  using assms wf_session_new_bullet [OF assms]
  by (simp add: playing_shoot_def Let_def case_prod_beta alloc_def split: list.splits)

lemma wf_session_alienShoot:
  assumes "wf_session g"
  shows "wf_session (alienShoot i g)"
  using assms wf_session_new_enemy_bullet [OF assms]
  by (simp add: alienShoot_def Let_def case_prod_beta alloc_def)

lemma add_alien_group:
  "alienGroup (add_alien row col now g) = alienGroup g @ [nextAddr g]"
  "nextAddr (add_alien row col now g) = Suc (nextAddr g)"
  by (simp_all add: add_alien_def alloc_def)

lemma add_row_group:
  "alienGroup (foldl (\<lambda>gb col. add_alien row col now gb) g cls)
     = alienGroup g @ [nextAddr g..<nextAddr g + length cls]
   \<and> nextAddr (foldl (\<lambda>gb col. add_alien row col now gb) g cls) = nextAddr g + length cls"
proof (induction cls arbitrary: g)
  case Nil
  then show ?case by simp
next
  case (Cons c cls)
  let ?g' = "add_alien row c now g"
  have step: "[nextAddr g..<Suc (nextAddr g + length cls)]
      = nextAddr g # [Suc (nextAddr g)..<Suc (nextAddr g + length cls)]"
    by (simp add: upt_conv_Cons del: upt_Suc)
  have "alienGroup (foldl (\<lambda>gb col. add_alien row col now gb) ?g' cls)
     = alienGroup ?g' @ [nextAddr ?g'..<nextAddr ?g' + length cls]"
    and "nextAddr (foldl (\<lambda>gb col. add_alien row col now gb) ?g' cls) = nextAddr ?g' + length cls"
    using Cons [of ?g'] by simp_all
  then show ?case by (simp add: add_alien_group step del: upt_Suc)
qed

lemma populateAliens_group:
  "alienGroup (populateAliens now rws cls g)
     = alienGroup g @ [nextAddr g..<nextAddr g + length rws * length cls]
   \<and> nextAddr (populateAliens now rws cls g) = nextAddr g + length rws * length cls"
  unfolding populateAliens_def
proof (induction rws arbitrary: g)
  case Nil
  then show ?case by simp
next
  case (Cons r rws)
  let ?g' = "foldl (\<lambda>gb col. add_alien r col now gb) g cls"
  let ?F = "\<lambda>ga row. foldl (\<lambda>gb col. add_alien row col now gb) ga cls"
  have row: "alienGroup ?g' = alienGroup g @ [nextAddr g..<nextAddr g + length cls]"
    "nextAddr ?g' = nextAddr g + length cls"
    using add_row_group [of r now g cls] by simp_all
  have ih: "alienGroup (foldl ?F ?g' rws)
       = alienGroup ?g' @ [nextAddr ?g'..<nextAddr ?g' + length rws * length cls]"
    "nextAddr (foldl ?F ?g' rws) = nextAddr ?g' + length rws * length cls"
    using Cons [of ?g'] by simp_all
  have join: "[nextAddr g..<nextAddr g + length cls]
        @ [nextAddr g + length cls..<nextAddr g + length cls + length rws * length cls]
      = [nextAddr g..<nextAddr g + length (r # rws) * length cls]"
    using upt_add_eq_append [of "nextAddr g" "nextAddr g + length cls" "length rws * length cls"]
    by (simp add: add.assoc)
  show ?case
    using join by (simp add: ih row add.assoc)
qed

lemma wf_session_startGameLoop: "wf_session (startGameLoop now g)"
proof -
  define g2 where "g2 = (snd (alloc new_Player g))\<lparr>playerGroup := [fst (alloc new_Player g)],
      bulletGroup := [], enemyBulletGroup := [], alienGroup := []\<rparr>"
  define rws where "rws = [0..<nat (3 + (currentLevel g2 - 1))]"
  define g3 where "g3 = populateAliens now rws [0..<10] g2"
  have g2: "alienGroup g2 = []" "nextAddr g2 = Suc (nextAddr g)" "playerGroup g2 = [nextAddr g]"
    "bulletGroup g2 = []" "enemyBulletGroup g2 = []"
    by (simp_all add: g2_def alloc_def)
  have grp: "alienGroup g3 = [Suc (nextAddr g)..<Suc (nextAddr g) + length rws * 10]"
    and nxt: "nextAddr g3 = Suc (nextAddr g) + length rws * 10"
    using populateAliens_group [of now rws "[0..<10]" g2] by (simp_all add: g3_def g2)
  have pl: "playerGroup g3 = [nextAddr g]" "bulletGroup g3 = []" "enemyBulletGroup g3 = []"
    by (simp_all add: g3_def populateAliens_fields g2)
  have w: "wf_session g3"
    unfolding wf_session_iff grp nxt pl by auto
  have eq: "startGameLoop now g = g3\<lparr>initialAlienCount := length (alienGroup g3),
            alienShootInterval := Some (max (600 - (currentLevel g3 - 1) * 100) 300),
            movingRight := True, lastShotTime := now\<rparr>"
    by (simp add: startGameLoop_def Let_def case_prod_beta g3_def rws_def g2_def)
  show ?thesis
    unfolding eq by (rule wf_session_same_groups [OF w]) simp_all
qed

lemma wf_session_updatePlaying:
  assumes "wf_session g"
  shows "wf_session (updatePlaying now g)"
proof -
  define g1 where "g1 = playing_shoot now g"
  have s: "wf_session g1" unfolding g1_def using assms by (rule wf_session_playing_shoot)
  have full: "wf_session (playing_outcome (playing_advance now g1))"
    by (rule wf_session_playing_outcome [OF wf_session_playing_advance [OF s]])
  have r: "wf_session (g1\<lparr>pressedKeys := ks, currentLevel := 1, gameState := MENU,
      alienShootInterval := None\<rparr>)" for ks
    by (rule wf_session_same_groups [OF s]) simp_all
  have q: "wf_session (g1\<lparr>alienShootInterval := None\<rparr>)"
    by (rule wf_session_same_groups [OF s]) simp_all
  consider "pressedKeys g1 KeyR" | "\<not> pressedKeys g1 KeyR" "pressedKeys g1 KeyQ"
    | "\<not> pressedKeys g1 KeyR" "\<not> pressedKeys g1 KeyQ" by blast
  then show ?thesis
  proof cases
    case 1
    then have "updatePlaying now g = g1\<lparr>pressedKeys := (pressedKeys g1)(KeyR := False),
        currentLevel := 1, gameState := MENU, alienShootInterval := None\<rparr>"
      by (simp add: updatePlaying_def Let_def g1_def)
    then show ?thesis by (simp only: r)
  next
    case 2
    then have "updatePlaying now g = g1\<lparr>alienShootInterval := None\<rparr>"
      by (simp add: updatePlaying_def Let_def g1_def)
    then show ?thesis by (simp only: q)
  next
    case 3
    then have "updatePlaying now g = playing_outcome (playing_advance now g1)"
      by (simp add: updatePlaying_def Let_def g1_def)
    then show ?thesis by (simp only: full)
  qed
qed

lemma wf_session_gameLoop:
  assumes "wf_session g"
  shows "wf_session (gameLoop now g)"
proof -
  have m: "wf_session (updateMenu now g)"
  proof -
    define g1 where "g1 = (if pressedKeys g Enter
                then startGameLoop now
                       (g\<lparr>pressedKeys := (pressedKeys g)(Enter := False), gameState := PLAYING\<rparr>)
                else g)"
    have w: "wf_session g1" using assms by (simp add: g1_def wf_session_startGameLoop)
    have i: "wf_session (g1\<lparr>pressedKeys := ks, gameState := INSTRUCTIONS\<rparr>)" for ks
      by (rule wf_session_same_groups [OF w]) simp_all
    have "updateMenu now g =
        (if pressedKeys g1 KeyI
         then g1\<lparr>pressedKeys := (pressedKeys g1)(KeyI := False), gameState := INSTRUCTIONS\<rparr>
         else g1)"
      by (simp add: updateMenu_def Let_def g1_def)
    then show ?thesis by (cases "pressedKeys g1 KeyI") (simp_all only: if_True if_False i w)
  qed
  have l: "wf_session (updateLevelComplete now g)"
  proof -
    have "wf_session (g\<lparr>pressedKeys := ks, currentLevel := lv, gameState := VICTORY\<rparr>)" for ks lv
      by (rule wf_session_same_groups [OF assms]) simp_all
    then show ?thesis
      using assms by (simp add: updateLevelComplete_def Let_def wf_session_startGameLoop)
  qed
  have i: "wf_session (updateInstructions g)"
  proof -
    have "wf_session (g\<lparr>pressedKeys := ks, gameState := MENU\<rparr>)" for ks
      by (rule wf_session_same_groups [OF assms]) simp_all
    then show ?thesis using assms by (simp add: updateInstructions_def)
  qed
  have a: "wf_session (g\<lparr>pressedKeys := ks, currentLevel := 1, gameState := MENU\<rparr>)" for ks
    by (rule wf_session_same_groups [OF assms]) simp_all
  have b: "wf_session (g\<lparr>alienShootInterval := None\<rparr>)"
    by (rule wf_session_same_groups [OF assms]) simp_all
  have v: "wf_session (updateVictory g)" "wf_session (updateGameOver g)"
    using a b assms by (simp_all add: updateVictory_def updateGameOver_def)
  show ?thesis
    using m l i v wf_session_updatePlaying [OF assms]
    by (simp add: gameLoop_def split: gameState.splits)
qed

lemma wf_session_dispatch:
  assumes "wf_session g"
  shows "wf_session (dispatch g e)"
proof (cases e)
  case (KeyDown k)
  then show ?thesis using assms by (simp add: wf_session_def)
next
  case (KeyUp k)
  then show ?thesis using assms by (simp add: wf_session_def)
next
  case (Frame now)
  then show ?thesis using wf_session_gameLoop [OF assms] by simp
next
  case (AlienShootTimer i)
  then show ?thesis using wf_session_alienShoot [OF assms] assms by simp
qed

lemma wf_session_run: "wf_session g \<Longrightarrow> wf_session (run g es)"
  unfolding run_def
  by (induction es arbitrary: g) (simp_all add: wf_session_dispatch)

lemma wf_session_reachable: "wf_session (run initial_game es)"
  by (rule wf_session_run) (simp add: wf_session_def initial_game_def)

section \<open>The speed of the formation\<close>

lemma descend_x: "distinct grp \<Longrightarrow> x (rect (descend d h grp a)) = x (rect (h a))"
  by (cases "a \<in> set grp") (simp_all add: descend_inside descend_outside)

lemma Alien_update_x:
  "x (rect (Alien_update mr m now s)) =
     (if mr then jadd (x (rect s)) (jmul (1 / 2) m) else jsub (x (rect s)) (jmul (1 / 2) m))"
  by (simp add: Alien_update_def Let_def)

lemma moveFormation_step:
  assumes "distinct (alienGroup g)" and "a \<in> set (alienGroup g)" and "isAlive (heap g a)"
  shows "x (rect (heap (moveFormation now g) a)) =
     (if movingRight (moveFormation now g)
      then jadd (x (rect (heap g a)))
             (jmul (1 / 2) (speedMultiplier (initialAlienCount g) (length (alienGroup g))))
      else jsub (x (rect (heap g a)))
             (jmul (1 / 2) (speedMultiplier (initialAlienCount g) (length (alienGroup g)))))"
proof -
  define g1 where "g1 = (if edgeReached (movingRight g) (heap g) (alienGroup g)
                then g\<lparr>movingRight := \<not> movingRight g,
                       heap := descend (of_int (10 + currentLevel g * 5)) (heap g) (alienGroup g)\<rparr>
                else g)"
  define m where "m = speedMultiplier (initialAlienCount g) (length (alienGroup g))"
  have f: "alienGroup g1 = alienGroup g" "initialAlienCount g1 = initialAlienCount g"
    by (simp_all add: g1_def)
  have al: "isAlive (heap g1 a)" using assms(3) by (simp add: g1_def descend_isAlive)
  have x1: "x (rect (heap g1 a)) = x (rect (heap g a))"
    using assms(1) by (simp add: g1_def descend_x)
  have mr: "movingRight (moveFormation now g) = movingRight g1"
    by (simp add: moveFormation_def Let_def case_prod_beta g1_def)
  have "heap (moveFormation now g) a
      = fst (SpriteGroup_update (Alien_update (movingRight g1) m now) (heap g1) (alienGroup g)) a"
    by (simp add: moveFormation_def Let_def case_prod_beta g1_def m_def)
  also have "\<dots> = Alien_update (movingRight g1) m now (heap g1 a)"
    using assms(1,2) al by (simp add: SpriteGroup_update_store)
  finally show ?thesis
    unfolding mr m_def [symmetric] by (simp add: Alien_update_x x1)
qed

text \<open>
  Claim C6, as the code has it. While the alien array is not empty the multiplier is
  \<open>1 + (initialAlienCount - current) / initialAlienCount\<close> computed in binary64, where
  \<open>current\<close> is the length of the array: the subtraction is exact, the division and the
  addition round, and the result is within \<open>2 ^ -51\<close> of the exact value. With 30 aliens
  at the start it is exactly 1 when 30 remain, and \<open>1107134908395247 / 2 ^ 49\<close>
  (1.9666...) when one remains. In a tick every live alien moves by half the multiplier,
  in the direction the formation has after the edge check.
\<close>

theorem speedMultiplier_double:
  "(0 < c \<longrightarrow>
      speedMultiplier i c = jadd 1 (jdiv (jsub (of_nat i) (of_nat c)) (of_nat i)))
   \<and> (0 < c \<and> c \<le> i \<and> i < 2 ^ 53 \<longrightarrow>
        \<bar>speedMultiplier i c - (1 + (of_nat i - of_nat c) / of_nat i)\<bar> \<le> 1 / 2 ^ 51)
   \<and> speedMultiplier 30 30 = 1
   \<and> speedMultiplier 30 1 = 1107134908395247 / 2 ^ 49
   \<and> (distinct (alienGroup g) \<and> a \<in> set (alienGroup g) \<and> isAlive (heap g a) \<longrightarrow>
        x (rect (heap (moveFormation now g) a)) =
          (if movingRight (moveFormation now g)
           then jadd (x (rect (heap g a)))
                  (jmul (1 / 2) (speedMultiplier (initialAlienCount g) (length (alienGroup g))))
           else jsub (x (rect (heap g a)))
                  (jmul (1 / 2) (speedMultiplier (initialAlienCount g) (length (alienGroup g))))))"
proof -
  have "0 < c \<longrightarrow>
      speedMultiplier i c = jadd 1 (jdiv (jsub (of_nat i) (of_nat c)) (of_nat i))"
    by (simp add: speedMultiplier_def)
  moreover have "0 < c \<and> c \<le> i \<and> i < 2 ^ 53 \<longrightarrow>
        \<bar>speedMultiplier i c - (1 + (of_nat i - of_nat c) / of_nat i)\<bar> \<le> 1 / 2 ^ 51"
    using speedMultiplier_err [of c i] by blast
  moreover have "speedMultiplier 30 30 = 1" by (rule speedMultiplier_full) simp
  moreover note speedMultiplier_30_1
  moreover have "distinct (alienGroup g) \<and> a \<in> set (alienGroup g) \<and> isAlive (heap g a) \<longrightarrow>
        x (rect (heap (moveFormation now g) a)) =
          (if movingRight (moveFormation now g)
           then jadd (x (rect (heap g a)))
                  (jmul (1 / 2) (speedMultiplier (initialAlienCount g) (length (alienGroup g))))
           else jsub (x (rect (heap g a)))
                  (jmul (1 / 2) (speedMultiplier (initialAlienCount g) (length (alienGroup g)))))"
    using moveFormation_step [of g a now] by blast
  ultimately show ?thesis by (intro conjI)
qed

theorem speedMultiplier_double_witness:
  "(0::nat) < 1 \<and> (1::nat) \<le> 30 \<and> (30::nat) < 2 ^ 53
   \<and> speedMultiplier 30 1 = jadd 1 (jdiv (jsub (of_nat 30) (of_nat 1)) (of_nat 30))
   \<and> \<bar>speedMultiplier 30 1 - (1 + (of_nat 30 - of_nat 1) / of_nat 30)\<bar> \<le> 1 / 2 ^ 51
   \<and> distinct (alienGroup edge_session) \<and> 1 \<in> set (alienGroup edge_session)
   \<and> isAlive (heap edge_session 1) \<and> \<not> movingRight (moveFormation 0 edge_session)
   \<and> x (rect (heap (moveFormation 0 edge_session) 1))
       = jsub 790 (jmul (1 / 2) (speedMultiplier 30 1))"
proof -
  note T = speedMultiplier_double [of 1 30 edge_session 1 0]
  have e: "distinct (alienGroup edge_session)" "1 \<in> set (alienGroup edge_session)"
    "isAlive (heap edge_session 1)" "\<not> movingRight (moveFormation 0 edge_session)"
    "x (rect (heap edge_session 1)) = 790" "initialAlienCount edge_session = 30"
    "length (alienGroup edge_session) = 1"
    by code_simp+
  have n: "(0::nat) < 1 \<and> (1::nat) \<le> 30 \<and> (30::nat) < 2 ^ 53" by simp
  have a: "speedMultiplier 30 1 = jadd 1 (jdiv (jsub (of_nat 30) (of_nat 1)) (of_nat 30))"
    using T [THEN conjunct1] by simp
  have b: "\<bar>speedMultiplier 30 1 - (1 + (of_nat 30 - of_nat 1) / of_nat 30)\<bar> \<le> 1 / 2 ^ 51"
    using T [THEN conjunct2, THEN conjunct1] n by blast
  have c: "x (rect (heap (moveFormation 0 edge_session) 1))
       = jsub 790 (jmul (1 / 2) (speedMultiplier 30 1))"
    using T [THEN conjunct2, THEN conjunct2, THEN conjunct2, THEN conjunct2] e by simp
  show ?thesis using n a b c e(1-4) by (intro conjI) simp_all
qed

section \<open>The state machine\<close>

lemma add_alien_heap:
  "heap (add_alien row col now g) (nextAddr g)
     = new_Alien (jadd (jmul (of_nat col) 60) 50) (jadd (jmul (of_nat row) 50) 30) now"
  "a \<noteq> nextAddr g \<Longrightarrow> heap (add_alien row col now g) a = heap g a"
  by (simp_all add: add_alien_def alloc_def)

lemma add_row_heap:
  "(\<forall>j<length cls.
      heap (foldl (\<lambda>gb col. add_alien row col now gb) g cls) (nextAddr g + j)
        = new_Alien (jadd (jmul (of_nat (cls ! j)) 60) 50) (jadd (jmul (of_nat row) 50) 30) now)
   \<and> (\<forall>a<nextAddr g. heap (foldl (\<lambda>gb col. add_alien row col now gb) g cls) a = heap g a)"
proof (induction cls arbitrary: g)
  case Nil
  then show ?case by simp
next
  case (Cons c cls)
  let ?g1 = "add_alien row c now g"
  let ?g' = "foldl (\<lambda>gb col. add_alien row col now gb) ?g1 cls"
  have n1: "nextAddr ?g1 = Suc (nextAddr g)" by (rule add_alien_group)
  have new: "\<And>j. j < length cls \<Longrightarrow> heap ?g' (Suc (nextAddr g) + j)
        = new_Alien (jadd (jmul (of_nat (cls ! j)) 60) 50) (jadd (jmul (of_nat row) 50) 30) now"
    and old: "\<And>a. a < Suc (nextAddr g) \<Longrightarrow> heap ?g' a = heap ?g1 a"
    using Cons [of ?g1] unfolding n1 by blast+
  have first: "heap ?g' (nextAddr g)
      = new_Alien (jadd (jmul (of_nat c) 60) 50) (jadd (jmul (of_nat row) 50) 30) now"
    using old [of "nextAddr g"] by (simp add: add_alien_heap)
  have below: "heap ?g' a = heap g a" if "a < nextAddr g" for a
    using old [of a] that by (simp add: add_alien_heap)
  have "heap ?g' (nextAddr g + j)
        = new_Alien (jadd (jmul (of_nat ((c # cls) ! j)) 60) 50) (jadd (jmul (of_nat row) 50) 30) now"
    if "j < length (c # cls)" for j
  proof (cases j)
    case 0
    then show ?thesis using first by simp
  next
    case (Suc k)
    then have "k < length cls" using that by simp
    then show ?thesis using new [of k] Suc by simp
  qed
  then show ?case using below by simp
qed

lemma populateAliens_heap:
  "(\<forall>i<length rws. \<forall>j<length cls.
      heap (populateAliens now rws cls g) (nextAddr g + i * length cls + j)
        = new_Alien (jadd (jmul (of_nat (cls ! j)) 60) 50)
                    (jadd (jmul (of_nat (rws ! i)) 50) 30) now)
   \<and> (\<forall>a<nextAddr g. heap (populateAliens now rws cls g) a = heap g a)"
proof (induction rws arbitrary: g)
  case Nil
  then show ?case by (simp add: populateAliens_def)
next
  case (Cons r rws)
  let ?g1 = "foldl (\<lambda>gb col. add_alien r col now gb) g cls"
  let ?g' = "populateAliens now rws cls ?g1"
  have eq: "populateAliens now (r # rws) cls g = ?g'" by (simp add: populateAliens_def)
  have n1: "nextAddr ?g1 = nextAddr g + length cls"
    using add_row_group [of r now g cls] by simp
  have row: "\<And>j. j < length cls \<Longrightarrow> heap ?g1 (nextAddr g + j)
        = new_Alien (jadd (jmul (of_nat (cls ! j)) 60) 50) (jadd (jmul (of_nat r) 50) 30) now"
    and keep: "\<And>a. a < nextAddr g \<Longrightarrow> heap ?g1 a = heap g a"
    using add_row_heap [of cls r now g] by blast+
  have new: "\<And>i j. i < length rws \<Longrightarrow> j < length cls \<Longrightarrow>
      heap ?g' (nextAddr g + length cls + i * length cls + j)
        = new_Alien (jadd (jmul (of_nat (cls ! j)) 60) 50)
                    (jadd (jmul (of_nat (rws ! i)) 50) 30) now"
    and old: "\<And>a. a < nextAddr g + length cls \<Longrightarrow> heap ?g' a = heap ?g1 a"
    using Cons [of ?g1] unfolding n1 by blast+
  have "heap ?g' (nextAddr g + i * length cls + j)
        = new_Alien (jadd (jmul (of_nat (cls ! j)) 60) 50)
                    (jadd (jmul (of_nat ((r # rws) ! i)) 50) 30) now"
    if "i < length (r # rws)" "j < length cls" for i j
  proof (cases i)
    case 0
    have "heap ?g' (nextAddr g + j) = heap ?g1 (nextAddr g + j)"
      using that(2) by (intro old) simp
    then show ?thesis using row [OF that(2)] 0 by simp
  next
    case (Suc k)
    then have k: "k < length rws" using that(1) by simp
    have "nextAddr g + Suc k * length cls + j = nextAddr g + length cls + k * length cls + j"
      by simp
    then show ?thesis using new [OF k that(2)] Suc by (simp add: add.assoc)
  qed
  moreover have "heap ?g' a = heap g a" if "a < nextAddr g" for a
    using old [of a] keep [of a] that by simp
  ultimately show ?case unfolding eq by blast
qed

lemma startGameLoop_session:
  "heap (startGameLoop now g) (nextAddr g) = new_Player"
  "alienGroup (startGameLoop now g)
     = [Suc (nextAddr g)..<Suc (nextAddr g) + nat (3 + (currentLevel g - 1)) * 10]"
  "nextAddr (startGameLoop now g) = Suc (nextAddr g) + nat (3 + (currentLevel g - 1)) * 10"
  "row < nat (3 + (currentLevel g - 1)) \<Longrightarrow> col < 10 \<Longrightarrow>
   heap (startGameLoop now g) (Suc (nextAddr g) + row * 10 + col)
     = new_Alien (jadd (jmul (of_nat col) 60) 50) (jadd (jmul (of_nat row) 50) 30) now"
proof -
  define g2 where "g2 = (snd (alloc new_Player g))\<lparr>playerGroup := [fst (alloc new_Player g)],
      bulletGroup := [], enemyBulletGroup := [], alienGroup := []\<rparr>"
  define rws where "rws = [0..<nat (3 + (currentLevel g - 1))]"
  define g3 where "g3 = populateAliens now rws [0..<10] g2"
  have g2: "alienGroup g2 = []" "nextAddr g2 = Suc (nextAddr g)"
    "heap g2 (nextAddr g) = new_Player" "currentLevel g2 = currentLevel g"
    by (simp_all add: g2_def alloc_def)
  have len: "length rws = nat (3 + (currentLevel g - 1))" by (simp add: rws_def)
  have sg: "heap (startGameLoop now g) = heap g3" "alienGroup (startGameLoop now g) = alienGroup g3"
    "nextAddr (startGameLoop now g) = nextAddr g3"
    by (simp_all add: startGameLoop_def Let_def case_prod_beta g3_def rws_def g2_def alloc_def)
  show "alienGroup (startGameLoop now g)
     = [Suc (nextAddr g)..<Suc (nextAddr g) + nat (3 + (currentLevel g - 1)) * 10]"
    and "nextAddr (startGameLoop now g) = Suc (nextAddr g) + nat (3 + (currentLevel g - 1)) * 10"
    using populateAliens_group [of now rws "[0..<10]" g2] by (simp_all add: sg g3_def g2 len)
  have new: "\<And>i j. i < length rws \<Longrightarrow> j < length [0..<10::nat] \<Longrightarrow>
      heap g3 (nextAddr g2 + i * length [0..<10::nat] + j)
        = new_Alien (jadd (jmul (of_nat ([0..<10] ! j)) 60) 50)
                    (jadd (jmul (of_nat (rws ! i)) 50) 30) now"
    and old: "\<And>a. a < nextAddr g2 \<Longrightarrow> heap g3 a = heap g2 a"
    using populateAliens_heap [of rws "[0..<10]" now g2] unfolding g3_def by blast+
  show "heap (startGameLoop now g) (nextAddr g) = new_Player"
    using old [of "nextAddr g"] by (simp add: sg g2)
  show "heap (startGameLoop now g) (Suc (nextAddr g) + row * 10 + col)
     = new_Alien (jadd (jmul (of_nat col) 60) 50) (jadd (jmul (of_nat row) 50) 30) now"
    if "row < nat (3 + (currentLevel g - 1))" "col < 10"
  proof -
    have r: "row < length rws" using that(1) by (simp add: len)
    have c: "col < length [0..<10::nat]" using that(2) by simp
    have "rws ! row = row" using that(1) by (simp add: rws_def)
    moreover have "[0..<10::nat] ! col = col" using that(2) by simp
    ultimately show ?thesis using new [OF r c] by (simp add: sg g2)
  qed
qed

text \<open>
  Claim C9. In the state LEVEL_COMPLETE a frame with the confirm key (Enter) held adds one
  to the level. If the new level is at most 3 the state becomes PLAYING and a new session
  has been created for the new level, the one \<open>startGameLoop\<close> builds: the key is used
  up, the player group holds one new player where players are built, both bullet groups
  are empty, the alien group holds \<open>(3 + level) * 10\<close> new aliens, alien \<open>(row, col)\<close>
  built at \<open>(col * 60 + 50, row * 50 + 30)\<close>, their number is \<open>initialAlienCount\<close>, the
  enemy-fire timer runs with the period of the new level, the formation moves rightward
  and the shot clock starts at the time of the frame. If the new level exceeds 3 the state
  becomes VICTORY and no session is created: store, groups and timer are as before.
\<close>

theorem levelComplete_confirm:
  assumes "gameState g = LEVEL_COMPLETE" and "pressedKeys g Enter"
  shows "currentLevel (gameLoop now g) = currentLevel g + 1
     \<and> (currentLevel g + 1 \<le> 3 \<longrightarrow>
          gameState (gameLoop now g) = PLAYING
          \<and> gameLoop now g =
              startGameLoop now
                (g\<lparr>pressedKeys := (pressedKeys g)(Enter := False, Escape := False),
                   currentLevel := currentLevel g + 1, gameState := PLAYING\<rparr>)
          \<and> \<not> pressedKeys (gameLoop now g) Enter
          \<and> playerGroup (gameLoop now g) = [nextAddr g]
          \<and> heap (gameLoop now g) (nextAddr g) = new_Player
          \<and> bulletGroup (gameLoop now g) = []
          \<and> enemyBulletGroup (gameLoop now g) = []
          \<and> alienGroup (gameLoop now g)
              = [Suc (nextAddr g)..<Suc (nextAddr g) + nat (3 + currentLevel g) * 10]
          \<and> (\<forall>row<nat (3 + currentLevel g). \<forall>col<10.
                heap (gameLoop now g) (Suc (nextAddr g) + row * 10 + col)
                  = new_Alien (jadd (jmul (of_nat col) 60) 50)
                              (jadd (jmul (of_nat row) 50) 30) now)
          \<and> initialAlienCount (gameLoop now g) = nat (3 + currentLevel g) * 10
          \<and> alienShootInterval (gameLoop now g)
              = Some (max (600 - currentLevel g * 100) 300)
          \<and> movingRight (gameLoop now g)
          \<and> lastShotTime (gameLoop now g) = now)
     \<and> (3 < currentLevel g + 1 \<longrightarrow>
          gameState (gameLoop now g) = VICTORY
          \<and> playerGroup (gameLoop now g) = playerGroup g
          \<and> alienGroup (gameLoop now g) = alienGroup g
          \<and> heap (gameLoop now g) = heap g
          \<and> alienShootInterval (gameLoop now g) = alienShootInterval g)"
proof -
  let ?g1 = "g\<lparr>pressedKeys := (pressedKeys g)(Enter := False, Escape := False),
                   currentLevel := currentLevel g + 1, gameState := PLAYING\<rparr>"
  have lvl: "currentLevel (gameLoop now g) = currentLevel g + 1"
    using assms by (simp add: gameLoop_def updateLevelComplete_def Let_def startGameLoop_fields)
  have vic: "3 < currentLevel g + 1 \<longrightarrow>
          gameState (gameLoop now g) = VICTORY
          \<and> playerGroup (gameLoop now g) = playerGroup g
          \<and> alienGroup (gameLoop now g) = alienGroup g
          \<and> heap (gameLoop now g) = heap g
          \<and> alienShootInterval (gameLoop now g) = alienShootInterval g"
    using assms by (simp add: gameLoop_def updateLevelComplete_def Let_def)
  have play: "gameState (gameLoop now g) = PLAYING
          \<and> gameLoop now g = startGameLoop now ?g1
          \<and> \<not> pressedKeys (gameLoop now g) Enter
          \<and> playerGroup (gameLoop now g) = [nextAddr g]
          \<and> heap (gameLoop now g) (nextAddr g) = new_Player
          \<and> bulletGroup (gameLoop now g) = []
          \<and> enemyBulletGroup (gameLoop now g) = []
          \<and> alienGroup (gameLoop now g)
              = [Suc (nextAddr g)..<Suc (nextAddr g) + nat (3 + currentLevel g) * 10]
          \<and> (\<forall>row<nat (3 + currentLevel g). \<forall>col<10.
                heap (gameLoop now g) (Suc (nextAddr g) + row * 10 + col)
                  = new_Alien (jadd (jmul (of_nat col) 60) 50)
                              (jadd (jmul (of_nat row) 50) 30) now)
          \<and> initialAlienCount (gameLoop now g) = nat (3 + currentLevel g) * 10
          \<and> alienShootInterval (gameLoop now g)
              = Some (max (600 - currentLevel g * 100) 300)
          \<and> movingRight (gameLoop now g)
          \<and> lastShotTime (gameLoop now g) = now"
    if le: "currentLevel g + 1 \<le> 3"
  proof -
    have eq: "gameLoop now g = startGameLoop now ?g1"
      using assms le by (simp add: gameLoop_def updateLevelComplete_def Let_def)
    have f: "nextAddr ?g1 = nextAddr g" "currentLevel ?g1 - 1 = currentLevel g"
      "3 + (currentLevel ?g1 - 1) = 3 + currentLevel g"
      "gameState ?g1 = PLAYING" "\<not> pressedKeys ?g1 Enter"
      "(currentLevel ?g1 - 1) * 100 = currentLevel g * 100"
      by simp_all
    have aliens: "\<forall>row<nat (3 + currentLevel g). \<forall>col<10.
                heap (startGameLoop now ?g1) (Suc (nextAddr g) + row * 10 + col)
                  = new_Alien (jadd (jmul (of_nat col) 60) 50)
                              (jadd (jmul (of_nat row) 50) 30) now"
      using startGameLoop_session(4) [of _ ?g1 _ now] unfolding f by blast
    have grp: "alienGroup (startGameLoop now ?g1)
              = [Suc (nextAddr g)..<Suc (nextAddr g) + nat (3 + currentLevel g) * 10]"
      using startGameLoop_session(2) [of now ?g1] unfolding f .
    have pl: "heap (startGameLoop now ?g1) (nextAddr g) = new_Player"
      using startGameLoop_session(1) [of now ?g1] unfolding f .
    have rest: "gameState (startGameLoop now ?g1) = PLAYING"
      "\<not> pressedKeys (startGameLoop now ?g1) Enter"
      "playerGroup (startGameLoop now ?g1) = [nextAddr g]"
      "bulletGroup (startGameLoop now ?g1) = []"
      "enemyBulletGroup (startGameLoop now ?g1) = []"
      "initialAlienCount (startGameLoop now ?g1) = nat (3 + currentLevel g) * 10"
      "alienShootInterval (startGameLoop now ?g1) = Some (max (600 - currentLevel g * 100) 300)"
      "movingRight (startGameLoop now ?g1)"
      "lastShotTime (startGameLoop now ?g1) = now"
      by (simp_all add: startGameLoop_fields)
    show ?thesis unfolding eq using aliens grp pl rest by (intro conjI refl)
  qed
  show ?thesis using lvl vic play by blast
qed

theorem levelComplete_confirm_witness:
  "currentLevel (gameLoop 0 level_cleared) = 2
   \<and> gameState (gameLoop 0 level_cleared) = PLAYING
   \<and> playerGroup (gameLoop 0 level_cleared) = [0]
   \<and> heap (gameLoop 0 level_cleared) 0 = new_Player
   \<and> bulletGroup (gameLoop 0 level_cleared) = []
   \<and> enemyBulletGroup (gameLoop 0 level_cleared) = []
   \<and> alienGroup (gameLoop 0 level_cleared) = [1..<41]
   \<and> heap (gameLoop 0 level_cleared) 1 = new_Alien 50 30 0
   \<and> heap (gameLoop 0 level_cleared) 40 = new_Alien 590 180 0
   \<and> initialAlienCount (gameLoop 0 level_cleared) = 40
   \<and> alienShootInterval (gameLoop 0 level_cleared) = Some 500
   \<and> movingRight (gameLoop 0 level_cleared)
   \<and> currentLevel (gameLoop 0 last_level_cleared) = 4
   \<and> gameState (gameLoop 0 last_level_cleared) = VICTORY
   \<and> alienGroup (gameLoop 0 last_level_cleared) = []"
proof -
  have h: "gameState level_cleared = LEVEL_COMPLETE" "pressedKeys level_cleared Enter"
    and f: "currentLevel level_cleared = 1" "nextAddr level_cleared = 0"
    by (simp_all add: level_cleared_def initial_game_def)
  have h3: "gameState last_level_cleared = LEVEL_COMPLETE" "pressedKeys last_level_cleared Enter"
    and f3: "currentLevel last_level_cleared = 3" "alienGroup last_level_cleared = []"
    by (simp_all add: last_level_cleared_def level_cleared_def initial_game_def)
  note T = levelComplete_confirm [OF h, of 0]
  note V = levelComplete_confirm [OF h3, of 0]
  have le: "currentLevel level_cleared + 1 \<le> 3" by (simp add: f)
  have gt: "3 < currentLevel last_level_cleared + 1" by (simp add: f3)
  note P = T [THEN conjunct2, THEN conjunct1, THEN mp, OF le]
  note Q = P [THEN conjunct2, THEN conjunct2]
  note W = V [THEN conjunct2, THEN conjunct2, THEN mp, OF gt]
  have grid: "\<forall>row<nat (3 + currentLevel level_cleared). \<forall>col<10.
                heap (gameLoop 0 level_cleared) (Suc (nextAddr level_cleared) + row * 10 + col)
                  = new_Alien (jadd (jmul (of_nat col) 60) 50)
                              (jadd (jmul (of_nat row) 50) 30) 0"
    using Q by (elim conjE)
  have c: "jadd (jmul (of_nat 0) 60) 50 = 50" "jadd (jmul (of_nat 0) 50) 30 = 30"
    "jadd (jmul (of_nat 9) 60) 50 = 590" "jadd (jmul (of_nat 3) 50) 30 = 180"
    by code_simp+
  have a1: "heap (gameLoop 0 level_cleared) 1 = new_Alien 50 30 0"
    using grid [rule_format, of 0 0] by (simp only: c) (simp add: f)
  have a40: "heap (gameLoop 0 level_cleared) 40 = new_Alien 590 180 0"
    using grid [rule_format, of 3 9] by (simp only: c) (simp add: f)
  have rest: "currentLevel (gameLoop 0 level_cleared) = 2"
    "gameState (gameLoop 0 level_cleared) = PLAYING"
    "playerGroup (gameLoop 0 level_cleared) = [0]"
    "heap (gameLoop 0 level_cleared) 0 = new_Player"
    "bulletGroup (gameLoop 0 level_cleared) = []"
    "enemyBulletGroup (gameLoop 0 level_cleared) = []"
    "alienGroup (gameLoop 0 level_cleared) = [1..<41]"
    "initialAlienCount (gameLoop 0 level_cleared) = 40"
    "alienShootInterval (gameLoop 0 level_cleared) = Some 500"
    "movingRight (gameLoop 0 level_cleared)"
    using T [THEN conjunct1] P [THEN conjunct1] Q by (simp_all add: f)
  have vic: "currentLevel (gameLoop 0 last_level_cleared) = 4"
    "gameState (gameLoop 0 last_level_cleared) = VICTORY"
    "alienGroup (gameLoop 0 last_level_cleared) = []"
    using V [THEN conjunct1] W by (simp_all add: f3)
  show ?thesis using rest a1 a40 vic by (intro conjI)
qed

end
